theory Spec2Isabelle
  imports Complex_Main "HOL-Library.Word"
begin

section \<open>Single and double precision numbers\<close>

text \<open>
  The visualiser computes its bar lengths with the C type \<open>float\<close> and reads the
  loudness through \<open>atof\<close>, which returns a \<open>double\<close>. Both are modelled as the
  IEEE 754 interchange formats binary32 and binary64: a value is its bit pattern (a 32-bit
  or 64-bit word), every arithmetic operation rounds its exact rational result to the
  nearest representable value, ties to the even significand, and the intermediate results
  are kept in the operand type (\<open>FLT_EVAL_METHOD = 0\<close>). The two formats share the
  functions below, parametrised by the number \<open>t\<close> of fraction bits and the number
  \<open>w\<close> of exponent bits.
\<close>

definition rne :: "rat \<Rightarrow> int" where
  \<comment> \<open>round to the nearest integer, ties to even\<close>
  "rne x = (let f = \<lfloor>x\<rfloor>; d = x - of_int f in
     if d < 1 / 2 then f else if 1 / 2 < d then f + 1 else if even f then f else f + 1)"

function ilog2 :: "int \<Rightarrow> nat" where
  \<comment> \<open>the number of halvings that bring \<open>n\<close> below 2\<close>
  "ilog2 n = (if n < 2 then 0 else 1 + ilog2 (n div 2))"
  by pat_completeness auto
termination
  by (relation "measure nat") auto

declare ilog2.simps [simp del]

definition exponent2 :: "rat \<Rightarrow> int" where
  \<comment> \<open>the exponent \<open>e\<close> of the binade of \<open>x > 0\<close>:
      \<open>2 powi e \<le> x < 2 powi (e + 1)\<close>\<close>
  "exponent2 x =
     (if 1 \<le> x then int (ilog2 \<lfloor>x\<rfloor>) else - 1 - int (ilog2 (\<lceil>1 / x\<rceil> - 1)))"

definition bias :: "nat \<Rightarrow> int" where
  "bias w = 2 ^ (w - 1) - 1"

definition inf_pat :: "nat \<Rightarrow> nat \<Rightarrow> int" where
  \<comment> \<open>the magnitude bits of infinity: exponent field all ones, fraction zero\<close>
  "inf_pat t w = (2 ^ w - 1) * 2 ^ t"

definition binade :: "nat \<Rightarrow> rat \<Rightarrow> int" where
  \<comment> \<open>the exponent field of the values around \<open>x > 0\<close>, less one: 0 throughout the
      subnormal range and the first normal binade, and at most \<open>2 ^ w - 2\<close>, where
      every significand reaches the pattern of infinity\<close>
  "binade w x = min (2 ^ w - 2) (max 0 (exponent2 x + bias w - 1))"

definition round_mag :: "nat \<Rightarrow> nat \<Rightarrow> rat \<Rightarrow> int" where
  \<comment> \<open>the magnitude bits of the value nearest to \<open>x \<ge> 0\<close>. The representable values
      around \<open>x\<close> are the multiples of \<open>2 powi (k + 1 - bias w - t)\<close>; the multiple
      nearest to \<open>x\<close> is taken, the even one of two equally near. A significand that
      rounds up to \<open>2 ^ (t + 1)\<close> carries into the exponent field, and whatever reaches
      the pattern of infinity is infinity.\<close>
  "round_mag t w x =
     (if x = 0 then 0
      else let k = binade w x;
               m = rne (x * 2 powi (bias w + int t - k - 1))
           in min (k * 2 ^ t + m) (inf_pat t w))"

definition val_mag :: "nat \<Rightarrow> nat \<Rightarrow> int \<Rightarrow> rat" where
  \<comment> \<open>the value of magnitude bits \<open>a\<close>; the pattern of infinity reads as
      \<open>2 powi (bias w + 1)\<close>, above every finite value\<close>
  "val_mag t w a =
     (let E = a div 2 ^ t; T = a mod 2 ^ t in
      if E = 0 then of_int T * 2 powi (1 - bias w - int t)
      else of_int (2 ^ t + T) * 2 powi (E - bias w - int t))"

type_synonym f32 = "32 word"
type_synonym f64 = "64 word"

definition f32_mag :: "f32 \<Rightarrow> int" where
  "f32_mag a = uint a mod 2 ^ 31"

definition f32_neg :: "f32 \<Rightarrow> bool" where
  "f32_neg a = (2 ^ 31 \<le> uint a)"

definition f32_is_nan :: "f32 \<Rightarrow> bool" where
  "f32_is_nan a = (inf_pat 23 8 < f32_mag a)"

definition f32_is_inf :: "f32 \<Rightarrow> bool" where
  "f32_is_inf a = (f32_mag a = inf_pat 23 8)"

definition f32_val :: "f32 \<Rightarrow> rat" where
  "f32_val a = (if f32_neg a then - val_mag 23 8 (f32_mag a) else val_mag 23 8 (f32_mag a))"

definition f32_make :: "bool \<Rightarrow> int \<Rightarrow> f32" where
  "f32_make s m = word_of_int ((if s then 2 ^ 31 else 0) + m)"

definition f32_nan :: f32 where
  \<comment> \<open>the quiet NaN an invalid operation delivers; the program only ever observes that a
      value is a NaN, never which one\<close>
  "f32_nan = f32_make False (inf_pat 23 8 + 2 ^ 22)"

definition f32_round :: "rat \<Rightarrow> f32" where
  "f32_round x = f32_make (x < 0) (round_mag 23 8 \<bar>x\<bar>)"

definition f64_mag :: "f64 \<Rightarrow> int" where
  "f64_mag a = uint a mod 2 ^ 63"

definition f64_neg :: "f64 \<Rightarrow> bool" where
  "f64_neg a = (2 ^ 63 \<le> uint a)"

definition f64_is_nan :: "f64 \<Rightarrow> bool" where
  "f64_is_nan a = (inf_pat 52 11 < f64_mag a)"

definition f64_make :: "bool \<Rightarrow> int \<Rightarrow> f64" where
  "f64_make s m = word_of_int ((if s then 2 ^ 63 else 0) + m)"

definition f64_nan :: "bool \<Rightarrow> f64" where
  "f64_nan s = f64_make s (inf_pat 52 11 + 2 ^ 51)"

subsection \<open>The operations of C on \<open>float\<close>\<close>

definition f32_is_signaling :: "f32 \<Rightarrow> bool" where
  \<comment> \<open>a NaN whose leading fraction bit is clear\<close>
  "f32_is_signaling a = (f32_is_nan a \<and> f32_mag a < inf_pat 23 8 + 2 ^ 22)"

definition f32_quiet :: "f32 \<Rightarrow> f32" where
  \<comment> \<open>the quiet form of a NaN: the leading fraction bit is set\<close>
  "f32_quiet a = (if f32_is_signaling a then a + 2 ^ 22 else a)"

definition f32_nan_sum :: "f32 \<Rightarrow> f32 \<Rightarrow> f32" where
  \<comment> \<open>the sum \<open>x + y\<close> when an operand is a NaN: the first NaN operand, made quiet\<close>
  "f32_nan_sum x y = f32_quiet (if f32_is_nan x then x else y)"

definition fmaxf :: "f32 \<Rightarrow> f32 \<Rightarrow> f32" where
  \<comment> \<open>\<open>fmaxf\<close> of the C library (glibc on x86-64). A quiet NaN argument is missing
      data: the other argument is returned. With a signalling NaN, or with two NaNs, the
      result is \<open>x + y\<close>, a quiet NaN. Of two equal arguments the second is returned.\<close>
  "fmaxf x y =
     (if f32_is_nan x \<or> f32_is_nan y then
        (if (f32_is_nan x \<and> f32_is_nan y) \<or> f32_is_signaling x \<or> f32_is_signaling y
         then f32_nan_sum x y
         else if f32_is_nan x then y else x)
      else if f32_val y < f32_val x then x else y)"

definition fminf :: "f32 \<Rightarrow> f32 \<Rightarrow> f32" where
  \<comment> \<open>\<open>fminf\<close>, with the same treatment of NaNs and of equal arguments\<close>
  "fminf x y =
     (if f32_is_nan x \<or> f32_is_nan y then
        (if (f32_is_nan x \<and> f32_is_nan y) \<or> f32_is_signaling x \<or> f32_is_signaling y
         then f32_nan_sum x y
         else if f32_is_nan x then y else x)
      else if f32_val x < f32_val y then x else y)"

definition f32_div :: "f32 \<Rightarrow> f32 \<Rightarrow> f32" where
  "f32_div a b =
     (if f32_is_nan a \<or> f32_is_nan b then f32_nan
      else if f32_is_inf a \<and> f32_is_inf b then f32_nan
      else if f32_mag a = 0 \<and> f32_mag b = 0 then f32_nan
      else let s = (f32_neg a \<noteq> f32_neg b) in
        if f32_is_inf a \<or> f32_mag b = 0 then f32_make s (inf_pat 23 8)
        else if f32_is_inf b then f32_make s 0
        else f32_make s (round_mag 23 8 (\<bar>f32_val a\<bar> / \<bar>f32_val b\<bar>)))"

definition f32_mul :: "f32 \<Rightarrow> f32 \<Rightarrow> f32" where
  "f32_mul a b =
     (if f32_is_nan a \<or> f32_is_nan b then f32_nan
      else if f32_is_inf a \<and> f32_mag b = 0 then f32_nan
      else if f32_mag a = 0 \<and> f32_is_inf b then f32_nan
      else let s = (f32_neg a \<noteq> f32_neg b) in
        if f32_is_inf a \<or> f32_is_inf b then f32_make s (inf_pat 23 8)
        else f32_make s (round_mag 23 8 (\<bar>f32_val a\<bar> * \<bar>f32_val b\<bar>)))"

definition f32_sub :: "f32 \<Rightarrow> f32 \<Rightarrow> f32" where
  \<comment> \<open>an exact difference of zero is \<open>+0\<close>, except for \<open>(-0) - (+0)\<close>\<close>
  "f32_sub a b =
     (if f32_is_nan a \<or> f32_is_nan b then f32_nan
      else if f32_is_inf a \<and> f32_is_inf b \<and> f32_neg a = f32_neg b then f32_nan
      else if f32_is_inf a then a
      else if f32_is_inf b then f32_make (\<not> f32_neg b) (inf_pat 23 8)
      else let d = f32_val a - f32_val b in
        if d = 0 then f32_make (f32_mag a = 0 \<and> f32_neg a \<and> \<not> f32_neg b) 0
        else f32_round d)"

definition float_of_int :: "32 word \<Rightarrow> f32" where
  \<comment> \<open>the conversion \<open>(float) i\<close>, also the implicit one of an \<open>int\<close> operand\<close>
  "float_of_int i = f32_round (of_int (sint i))"

definition INT_MIN :: "32 word" where
  "INT_MIN = word_of_int (- (2 ^ 31))"

definition int_of_float :: "f32 \<Rightarrow> 32 word" where
  \<comment> \<open>the conversion \<open>(int) x\<close>: the fraction is discarded. C leaves the conversion of
      a NaN or of a value outside the range of \<open>int\<close> undefined; the x86-64 instruction
      delivers \<open>INT_MIN\<close>, which is what is written out here.\<close>
  "int_of_float x =
     (if f32_is_nan x then INT_MIN
      else let v = f32_val x; i = (if 0 \<le> v then \<lfloor>v\<rfloor> else - \<lfloor>- v\<rfloor>) in
        if - (2 ^ 31) \<le> i \<and> i < 2 ^ 31 then word_of_int i else INT_MIN)"

definition float_of_double :: "f64 \<Rightarrow> f32" where
  \<comment> \<open>the conversion of the assignment \<open>rms_value = atof(token)\<close>\<close>
  "float_of_double d =
     (if f64_is_nan d then f32_make (f64_neg d) (inf_pat 23 8 + 2 ^ 22)
      else f32_make (f64_neg d) (round_mag 23 8 (val_mag 52 11 (f64_mag d))))"

definition nearest_single :: "rat \<Rightarrow> rat" where
  \<comment> \<open>the single precision value nearest to \<open>x\<close>\<close>
  "nearest_single x = f32_val (f32_round x)"

section \<open>The C library on strings\<close>

definition c_str :: "string \<Rightarrow> string" where
  \<comment> \<open>the string a buffer holds: the bytes before the first NUL\<close>
  "c_str buf = takeWhile (\<lambda>c. c \<noteq> CHR 0x00) buf"

definition strtok :: "string \<Rightarrow> string \<Rightarrow> (string \<times> string) option" where
  \<comment> \<open>\<open>strtok\<close> on the text still to be scanned: leading delimiters are skipped; when
      nothing is left there is no token (\<open>NULL\<close>); otherwise the token runs up to the next
      delimiter, and the scan resumes behind that delimiter\<close>
  "strtok s delim =
     (let s1 = dropWhile (\<lambda>c. c \<in> set delim) s in
      if s1 = [] then None
      else Some (takeWhile (\<lambda>c. c \<notin> set delim) s1,
                 drop 1 (dropWhile (\<lambda>c. c \<notin> set delim) s1)))"

definition isspace :: "char \<Rightarrow> bool" where
  "isspace c = (c \<in> set [CHR '' '', CHR 0x09, CHR 0x0A, CHR 0x0B, CHR 0x0C, CHR 0x0D])"

definition isdigit :: "char \<Rightarrow> bool" where
  "isdigit c = (48 \<le> (of_char c :: nat) \<and> (of_char c :: nat) \<le> 57)"

definition isxdigit :: "char \<Rightarrow> bool" where
  "isxdigit c = (isdigit c \<or> (65 \<le> (of_char c :: nat) \<and> (of_char c :: nat) \<le> 70)
     \<or> (97 \<le> (of_char c :: nat) \<and> (of_char c :: nat) \<le> 102))"

definition tolower :: "char \<Rightarrow> char" where
  "tolower c = (if 65 \<le> (of_char c :: nat) \<and> (of_char c :: nat) \<le> 90
     then char_of ((of_char c :: nat) + 32) else c)"

definition digit_val :: "char \<Rightarrow> int" where
  "digit_val c =
     (if isdigit c then of_char c - 48
      else if 97 \<le> (of_char c :: nat) then of_char c - 87 else of_char c - 55)"

definition digits_val :: "int \<Rightarrow> string \<Rightarrow> int" where
  \<comment> \<open>the number a digit string denotes in the given base\<close>
  "digits_val base ds = foldl (\<lambda>a c. base * a + digit_val c) 0 ds"

definition scan_sign :: "string \<Rightarrow> bool \<times> string" where
  "scan_sign s =
     (case s of
        c # r \<Rightarrow> if c = CHR ''-'' then (True, r) else if c = CHR ''+'' then (False, r) else (False, s)
      | [] \<Rightarrow> (False, s))"

definition strtol10 :: "string \<Rightarrow> int" where
  \<comment> \<open>\<open>strtol (s, NULL, 10)\<close> with a 64-bit \<open>long\<close>: white space, an optional sign, the
      longest run of digits; a value out of range is \<open>LONG_MAX\<close> or \<open>LONG_MIN\<close>; no
      digits give 0\<close>
  "strtol10 s =
     (let (neg, r) = scan_sign (dropWhile isspace s);
          v = digits_val 10 (takeWhile isdigit r)
      in if neg then max (- v) (- (2 ^ 63)) else min v (2 ^ 63 - 1))"

definition atoi :: "string \<Rightarrow> 32 word" where
  \<comment> \<open>the \<open>long\<close> is converted to \<open>int\<close>: its low 32 bits are kept\<close>
  "atoi s = word_of_int (strtol10 s)"

datatype scanned =
  No_conversion | Scanned_inf | Scanned_nan | Scanned_value rat

definition scan_exponent :: "char \<Rightarrow> string \<Rightarrow> int" where
  \<comment> \<open>an optional exponent part: the marker (\<open>e\<close> or \<open>p\<close>, either case), an optional
      sign and at least one digit; anything else is not an exponent\<close>
  "scan_exponent marker s =
     (case s of
        c # r \<Rightarrow>
          if tolower c = marker then
            (let (neg, r1) = scan_sign r; ds = takeWhile isdigit r1 in
             if ds = [] then 0 else if neg then - digits_val 10 ds else digits_val 10 ds)
          else 0
      | [] \<Rightarrow> 0)"

definition scale :: "int \<Rightarrow> rat \<Rightarrow> int \<Rightarrow> rat" where
  "scale m b e = (if 0 \<le> e then of_int m * b ^ nat e else of_int m / b ^ nat (- e))"

definition scan_digits :: "(char \<Rightarrow> bool) \<Rightarrow> int \<Rightarrow> rat \<Rightarrow> int \<Rightarrow> char \<Rightarrow> string \<Rightarrow> scanned" where
  \<comment> \<open>digits with an optional radix point, at least one digit, and an optional exponent;
      \<open>step\<close> is the weight of one fraction digit in powers of the exponent base\<close>
  "scan_digits is_dig base ebase step marker s =
     (let ip = takeWhile is_dig s; r1 = dropWhile is_dig s;
          fp = (case r1 of c # r \<Rightarrow> if c = CHR ''.'' then takeWhile is_dig r else [] | [] \<Rightarrow> []);
          r2 = (case r1 of c # r \<Rightarrow> if c = CHR ''.'' then dropWhile is_dig r else r1 | [] \<Rightarrow> r1)
      in if ip = [] \<and> fp = [] then No_conversion
         else Scanned_value (scale (digits_val base (ip @ fp)) ebase
                (scan_exponent marker r2 - step * int (length fp))))"

definition scan_number :: "string \<Rightarrow> scanned" where
  \<comment> \<open>the subject sequence of \<open>strtod\<close> behind the sign: \<open>inf\<close> or \<open>infinity\<close>,
      \<open>nan\<close>, a hexadecimal number behind \<open>0x\<close>, or a decimal number\<close>
  "scan_number s =
     (let l = map tolower s in
      if take 3 l = ''inf'' then Scanned_inf
      else if take 3 l = ''nan'' then Scanned_nan
      else if take 2 l = ''0x''
              \<and> scan_digits isxdigit 16 2 4 CHR ''p'' (drop 2 s) \<noteq> No_conversion
           then scan_digits isxdigit 16 2 4 CHR ''p'' (drop 2 s)
      else scan_digits isdigit 10 10 1 CHR ''e'' s)"

definition atof :: "string \<Rightarrow> f64" where
  \<comment> \<open>\<open>strtod (s, NULL)\<close>: white space, an optional sign, the number; the decimal or
      hexadecimal value is rounded to the nearest double, and no conversion gives \<open>+0\<close>\<close>
  "atof s =
     (let (neg, r) = scan_sign (dropWhile isspace s) in
      case scan_number r of
        No_conversion \<Rightarrow> 0
      | Scanned_inf \<Rightarrow> f64_make neg (inf_pat 52 11)
      | Scanned_nan \<Rightarrow> f64_nan neg
      | Scanned_value x \<Rightarrow> f64_make neg (round_mag 52 11 x))"

section \<open>The terminal and the renderer\<close>

datatype event =
  Stdout string
| Fflush
| System string
| Perror string
| Socket_call
| Bind_call int
| Recvfrom_call int
| Close_call int

type_synonym trace = "event list"

definition printf :: "string \<Rightarrow> trace \<Rightarrow> trace" where
  "printf s t = t @ [Stdout s]"

definition putchar :: "char \<Rightarrow> trace \<Rightarrow> trace" where
  "putchar c t = t @ [Stdout [c]]"

fun putchar_times :: "nat \<Rightarrow> char \<Rightarrow> trace \<Rightarrow> trace" where
  \<comment> \<open>\<open>for (int i = 0; i < n; i++) putchar(c);\<close>\<close>
  "putchar_times 0 c t = t"
| "putchar_times (Suc n) c t = putchar_times n c (putchar c t)"

fun stdout_of :: "trace \<Rightarrow> string" where
  \<comment> \<open>the bytes written to standard output\<close>
  "stdout_of [] = []"
| "stdout_of (Stdout s # t) = s @ stdout_of t"
| "stdout_of (e # t) = stdout_of t"

function show_nat :: "nat \<Rightarrow> string" where
  "show_nat n =
     (if n < 10 then [''0123456789'' ! n] else show_nat (n div 10) @ [''0123456789'' ! (n mod 10)])"
  by pat_completeness auto
termination
  by (relation "measure id") auto

declare show_nat.simps [simp del]

definition show_int :: "int \<Rightarrow> string" where
  \<comment> \<open>the conversion \<open>%d\<close> of \<open>printf\<close>\<close>
  "show_int i = (if i < 0 then CHR ''-'' # show_nat (nat (- i)) else show_nat (nat i))"

definition MAX_RMS_FOR_BAR :: f32 where
  "MAX_RMS_FOR_BAR = f32_round (4 / 10)"

definition BAR_WIDTH :: "32 word" where
  "BAR_WIDTH = 40"

definition PITCH_MIN_HZ :: f32 where
  "PITCH_MIN_HZ = f32_round 100"

definition PITCH_MAX_HZ :: f32 where
  "PITCH_MAX_HZ = f32_round 1000"

definition BAR_CHAR :: char where
  "BAR_CHAR = CHR ''.''"

definition PORT :: "32 word" where
  "PORT = 12345"

definition clear_terminal :: "trace \<Rightarrow> trace" where
  "clear_terminal t = t @ [System ''clear'']"

definition rms_bar_length :: "f32 \<Rightarrow> 32 word" where
  \<comment> \<open>lines 40 and 41\<close>
  "rms_bar_length rms_value =
     (let scaled_rms = f32_div (fminf (fmaxf rms_value 0) MAX_RMS_FOR_BAR) MAX_RMS_FOR_BAR
      in int_of_float (f32_mul scaled_rms (float_of_int BAR_WIDTH)))"

definition render_rms_bar :: "f32 \<Rightarrow> trace \<Rightarrow> trace" where
  \<comment> \<open>lines 40 to 49\<close>
  "render_rms_bar rms_value t =
     (let rms_bar_length = rms_bar_length rms_value;
          t1 = printf ''RMS  : '' t;
          t2 = putchar_times (nat (sint rms_bar_length)) BAR_CHAR t1;
          t3 = putchar_times (nat (sint (BAR_WIDTH - rms_bar_length))) CHR '' '' t2
      in printf [CHR 0x0A] t3)"

definition pitch_bar_length :: "32 word \<Rightarrow> 32 word" where
  \<comment> \<open>lines 52 to 57\<close>
  "pitch_bar_length pitch_value =
     (let scaled_pitch =
        (if 0 <s pitch_value then
           f32_div
             (f32_sub (fminf (fmaxf (float_of_int pitch_value) PITCH_MIN_HZ) PITCH_MAX_HZ)
                PITCH_MIN_HZ)
             (f32_sub PITCH_MAX_HZ PITCH_MIN_HZ)
         else 0)
      in int_of_float (f32_mul scaled_pitch (float_of_int BAR_WIDTH)))"

definition render_pitch_bar :: "32 word \<Rightarrow> trace \<Rightarrow> trace" where
  \<comment> \<open>lines 52 to 65\<close>
  "render_pitch_bar pitch_value t =
     (let pitch_bar_length = pitch_bar_length pitch_value;
          t1 = printf ''Pitch: '' t;
          t2 = putchar_times (nat (sint pitch_bar_length)) BAR_CHAR t1;
          t3 = putchar_times (nat (sint (BAR_WIDTH - pitch_bar_length))) CHR '' '' t2
      in printf ('' '' @ show_int (sint (if 0 <s pitch_value then pitch_value else 0)) @ '' Hz'' @ [CHR 0x0A])
           t3)"

definition render_audio :: "f32 \<Rightarrow> 32 word \<Rightarrow> trace \<Rightarrow> trace" where
  "render_audio rms_value pitch_value t =
     (let t1 = clear_terminal t;
          t2 = printf (''---YOU ARE NOW CONNECTED TO FRAN'' @ [CHR 0xC3, CHR 0x87] @ ''OISE---''
                 @ [CHR 0x0A]) t1;
          t3 = render_rms_bar rms_value t2;
          t4 = render_pitch_bar pitch_value t3;
          t5 = putchar_times (nat (sint (BAR_WIDTH + 7))) CHR ''-'' t4;
          t6 = printf [CHR 0x0A] t5
      in t6 @ [Fflush])"

section \<open>The receive loop\<close>

definition parse_payload :: "string \<Rightarrow> f32 \<times> 32 word" where
  \<comment> \<open>lines 120 to 131, on the \<open>n\<close> bytes received: the buffer is terminated behind
      them, so the text scanned ends at the first NUL byte\<close>
  "parse_payload payload =
     (case strtok (c_str payload) '','' of
        None \<Rightarrow> (0, 0)
      | Some (token, rest) \<Rightarrow>
          (let rms_value = float_of_double (atof token) in
           case strtok rest '','' of
             None \<Rightarrow> (rms_value, 0)
           | Some (token2, rest2) \<Rightarrow> (rms_value, atoi token2)))"

datatype outcome =
  Exited int trace
| Blocked trace

record env =
  socket_ret :: int
  bind_ret :: int
  datagrams :: "(int \<times> string) list"

definition EXIT_FAILURE :: int where
  "EXIT_FAILURE = 1"

fun receive_loop :: "int \<Rightarrow> (int \<times> string) list \<Rightarrow> trace \<Rightarrow> outcome" where
  \<comment> \<open>lines 115 to 139. The environment answers each \<open>recvfrom\<close> with its return value
      \<open>n\<close> and the bytes it stored; when it has no further answer the call never returns
      and the process stays blocked in it.\<close>
  "receive_loop sockfd [] t = Blocked (t @ [Recvfrom_call sockfd])"
| "receive_loop sockfd ((n, buffer) # later) t =
     (let t1 = t @ [Recvfrom_call sockfd] in
      if 0 < n then
        (let (rms_value, pitch_value) = parse_payload (take (nat n) buffer)
         in receive_loop sockfd later (render_audio rms_value pitch_value t1))
      else if n < 0 then receive_loop sockfd later (t1 @ [Perror ''recvfrom error''])
      else receive_loop sockfd later t1)"

definition main :: "env \<Rightarrow> outcome" where
  \<comment> \<open>lines 75 to 139 on a POSIX system\<close>
  "main e =
     (let t0 = printf (''C Visualiser starting...'' @ [CHR 0x0A]) [];
          sockfd = socket_ret e;
          t1 = t0 @ [Socket_call]
      in if sockfd < 0 then Exited EXIT_FAILURE (t1 @ [Perror ''socket creation failed''])
         else
           (let t2 = t1 @ [Bind_call sockfd] in
            if bind_ret e < 0 then
              Exited EXIT_FAILURE (t2 @ [Perror ''bind failed'', Close_call sockfd])
            else receive_loop sockfd (datagrams e)
                   (printf (''C Visualiser listening on port '' @ show_int (sint PORT) @ [CHR 0x0A]) t2)))"

section \<open>Output of the renderer\<close>

lemma putchar_times_append: "putchar_times n c t = t @ replicate n (Stdout [c])"
proof (induction n arbitrary: t)
  case 0
  show ?case by simp
next
  case (Suc n)
  have "replicate n (Stdout [c]) @ [Stdout [c]] = Stdout [c] # replicate n (Stdout [c])"
    by (simp add: replicate_append_same)
  with Suc show ?case by (simp add: putchar_def)
qed

lemma stdout_of_append: "stdout_of (a @ b) = stdout_of a @ stdout_of b"
  by (induction a rule: stdout_of.induct) simp_all

lemma stdout_of_replicate: "stdout_of (replicate n (Stdout [c])) = replicate n c"
  by (induction n) simp_all

lemma render_rms_bar_append: "render_rms_bar v t = t @ render_rms_bar v []"
  by (simp add: render_rms_bar_def Let_def printf_def putchar_times_append)

lemma render_pitch_bar_append: "render_pitch_bar p t = t @ render_pitch_bar p []"
  by (simp add: render_pitch_bar_def Let_def printf_def putchar_times_append)

lemma render_audio_append: "render_audio r p t = t @ render_audio r p []"
proof -
  have "render_audio r p t =
      t @ ([System ''clear'']
        @ [Stdout (''---YOU ARE NOW CONNECTED TO FRAN'' @ [CHR 0xC3, CHR 0x87] @ ''OISE---''
             @ [CHR 0x0A])]
        @ render_rms_bar r [] @ render_pitch_bar p []
        @ replicate (nat (sint (BAR_WIDTH + 7))) (Stdout ''-'') @ [Stdout [CHR 0x0A], Fflush])" for t
    unfolding render_audio_def Let_def clear_terminal_def printf_def putchar_times_append
    by (subst render_pitch_bar_append, subst render_rms_bar_append) simp
  from this [of t] this [of "[]"] show ?thesis by simp
qed

text \<open>
  C9. Rendering is deterministic and idempotent. \<open>render_audio\<close> reads nothing but its
  two arguments: what it emits is the same whatever the terminal has received before, so
  rendering one sample twice in a row writes the same bytes to standard output both times
  (the clear-screen command is not part of \<open>stdout_of\<close>).
\<close>

theorem render_audio_idempotent:
  "render_audio r p t = t @ render_audio r p []
   \<and> stdout_of (render_audio r p (render_audio r p t))
       = stdout_of t @ stdout_of (render_audio r p []) @ stdout_of (render_audio r p [])"
proof -
  have "render_audio r p (render_audio r p t) = (t @ render_audio r p []) @ render_audio r p []"
    using render_audio_append [of r p "render_audio r p t"] render_audio_append [of r p t] by simp
  then show ?thesis
    using render_audio_append [of r p t] by (simp add: stdout_of_append)
qed

section \<open>Start-up and the receive loop\<close>

lemma receive_loop_blocked: "\<exists>t'. receive_loop fd ds t = Blocked t'"
  by (induction fd ds t rule: receive_loop.induct) (auto simp: Let_def split: prod.splits)

text \<open>
  C7. A failure to create the socket and a failure to bind it are fatal: the process
  reports the error with \<open>perror\<close> and exits with the non-zero status \<open>EXIT_FAILURE\<close>;
  its trace holds no \<open>recvfrom\<close>, so the loop is never entered; and when the bind fails the
  socket already created is closed before the exit.
\<close>

theorem startup_failures_fatal:
  "(socket_ret e < 0 \<longrightarrow>
      main e = Exited EXIT_FAILURE
        [Stdout (''C Visualiser starting...'' @ [CHR 0x0A]), Socket_call,
         Perror ''socket creation failed''])
   \<and> (0 \<le> socket_ret e \<and> bind_ret e < 0 \<longrightarrow>
      main e = Exited EXIT_FAILURE
        [Stdout (''C Visualiser starting...'' @ [CHR 0x0A]), Socket_call,
         Bind_call (socket_ret e), Perror ''bind failed'', Close_call (socket_ret e)])
   \<and> EXIT_FAILURE \<noteq> 0"
  by (simp add: main_def Let_def printf_def EXIT_FAILURE_def)

theorem startup_failures_fatal_witness:
  "main \<lparr>socket_ret = - 1, bind_ret = 0, datagrams = [(3, ''0.1'')]\<rparr>
     = Exited 1 [Stdout (''C Visualiser starting...'' @ [CHR 0x0A]), Socket_call,
         Perror ''socket creation failed'']
   \<and> main \<lparr>socket_ret = 3, bind_ret = - 1, datagrams = [(3, ''0.1'')]\<rparr>
     = Exited 1 [Stdout (''C Visualiser starting...'' @ [CHR 0x0A]), Socket_call,
         Bind_call 3, Perror ''bind failed'', Close_call 3]"
  using startup_failures_fatal [of "\<lparr>socket_ret = - 1, bind_ret = 0, datagrams = [(3, ''0.1'')]\<rparr>"]
    startup_failures_fatal [of "\<lparr>socket_ret = 3, bind_ret = - 1, datagrams = [(3, ''0.1'')]\<rparr>"]
  by (simp add: EXIT_FAILURE_def)

text \<open>
  C8. A \<open>recvfrom\<close> that fails (a negative result) is reported with \<open>perror\<close> and the
  loop goes straight on to the next \<open>recvfrom\<close>: nothing is parsed or rendered and the
  process does not exit. A datagram of length zero is passed over in silence: the loop goes on
  with nothing emitted at all.
\<close>

theorem receive_failure_continues:
  "(n < 0 \<longrightarrow>
      receive_loop fd ((n, buf) # later) t
        = receive_loop fd later (t @ [Recvfrom_call fd, Perror ''recvfrom error'']))
   \<and> receive_loop fd ((0, buf) # later) t = receive_loop fd later (t @ [Recvfrom_call fd])
   \<and> (\<exists>t'. receive_loop fd ((n, buf) # later) t = Blocked t')"
  using receive_loop_blocked [of fd "(n, buf) # later" t] by (simp add: Let_def)

theorem receive_failure_continues_witness:
  "(- 1 :: int) < 0
   \<and> receive_loop 3 [(- 1, []), (0, [])] []
       = Blocked [Recvfrom_call 3, Perror ''recvfrom error'', Recvfrom_call 3, Recvfrom_call 3]"
  using receive_failure_continues [of "- 1" 3 "[]" "[(0, [])]" "[]"]
  by (simp add: Let_def)

section \<open>Evaluating the number formats\<close>

lemma ilog2_shift: "2 ^ j \<le> n \<Longrightarrow> ilog2 n = j + ilog2 (n div 2 ^ j)"
proof (induction j arbitrary: n)
  case 0
  show ?case by simp
next
  case (Suc j)
  have "(1::int) \<le> 2 ^ j" by simp
  moreover from Suc.prems have "2 * 2 ^ j \<le> n" by simp
  ultimately have n2: "2 \<le> n" by linarith
  from Suc.prems have "2 ^ j \<le> n div 2" by simp
  from Suc.IH [OF this] have "ilog2 (n div 2) = j + ilog2 (n div 2 div 2 ^ j)" .
  moreover have "n div 2 div 2 ^ j = n div 2 ^ Suc j"
    by (simp add: zdiv_zmult2_eq)
  moreover from n2 have "ilog2 n = 1 + ilog2 (n div 2)"
    by (subst ilog2.simps) simp
  ultimately show ?case by simp
qed

lemma ilog2_eval:
  "ilog2 n =
     (if n < 2 then 0
      else if n < 2 ^ 32 then 1 + ilog2 (n div 2)
      else if n < 2 ^ 256 then 32 + ilog2 (n div 2 ^ 32)
      else 256 + ilog2 (n div 2 ^ 256))"
  using ilog2_shift [of 32 n] ilog2_shift [of 256 n] ilog2.simps [of n]
  by simp

lemma floor_rat_numeral: "\<lfloor>numeral a / numeral b :: rat\<rfloor> = numeral a div numeral b"
  by (metis floor_divide_of_int_eq of_int_numeral)

lemma ceiling_rat_numeral: "\<lceil>numeral a / numeral b :: rat\<rceil> = - ((- numeral a) div numeral b)"
proof -
  have "\<lfloor>of_int (- numeral a) / of_int (numeral b) :: rat\<rfloor> = (- numeral a) div numeral b"
    by (rule floor_divide_of_int_eq)
  then show ?thesis by (simp add: ceiling_def)
qed

lemmas float_eval = floor_rat_numeral ceiling_rat_numeral ilog2_eval rne_def exponent2_def binade_def
  bias_def inf_pat_def round_mag_def val_mag_def
  f32_mag_def f32_neg_def f32_is_nan_def f32_is_inf_def f32_val_def f32_make_def f32_nan_def f32_round_def
  f32_is_signaling_def f32_quiet_def f32_nan_sum_def
  f64_mag_def f64_neg_def f64_is_nan_def f64_make_def f64_nan_def Let_def
  float_of_int_def int_of_float_def float_of_double_def INT_MIN_def

lemmas scan_eval = c_str_def strtok_def isspace_def isdigit_def isxdigit_def tolower_def digit_val_def
  digits_val_def scan_sign_def strtol10_def atoi_def scan_exponent_def scale_def scan_digits_def
  scan_number_def atof_def parse_payload_def

section \<open>The parser\<close>

lemma c_str_comma: "c_str (CHR '','' # payload) = CHR '','' # c_str payload"
  by (simp add: c_str_def)

lemma strtok_skip: "strtok (CHR '','' # s) '','' = strtok s '',''"
  by (simp add: strtok_def)

text \<open>
  C5, as amended. \<open>strtok\<close> skips leading delimiters, so a payload that begins with
  \<open>,\<close> parses as the same payload without that delimiter: the first field that is not
  empty is the loudness. \<open>,200\<close> yields loudness 200.0 and pitch 0; the loudness is 0.0
  when no field at all follows, as for the payload \<open>,\<close>.
\<close>

theorem leading_delimiter_skipped:
  "parse_payload (CHR '','' # payload) = parse_payload payload
   \<and> parse_payload '',200'' = (f32_round 200, 0)
   \<and> parse_payload '','' = (0, 0)"
proof -
  have "parse_payload (CHR '','' # payload) = parse_payload payload"
    by (simp add: parse_payload_def c_str_comma strtok_skip)
  moreover have "parse_payload '',200'' = (f32_round 200, 0)"
    by (simp add: scan_eval float_eval split del: if_split)
  moreover have "parse_payload '','' = (0, 0)"
    by (simp add: scan_eval split del: if_split)
  ultimately show ?thesis by simp
qed

text \<open>
  C5 as stated fails: for \<open>,200\<close> the parser yields loudness 200.0 (the bits
  \<open>0x43480000\<close>) and pitch 0, not loudness 0.0 and pitch 200.
\<close>

theorem absent_first_field_counterexample:
  "parse_payload '',200'' = (0x43480000, 0) \<and> parse_payload '',200'' \<noteq> (0, 200)"
proof -
  have "parse_payload '',200'' = (0x43480000, 0)"
    by (simp add: scan_eval float_eval split del: if_split)
  then show ?thesis by simp
qed

lemma c_str_fields:
  assumes "\<forall>c\<in>set a. c \<noteq> CHR 0x00"
  shows "c_str (a @ CHR '','' # b) = a @ CHR '','' # c_str b"
  using assms by (simp add: c_str_def)

lemma strtok_field:
  assumes "a \<noteq> []" "\<forall>c\<in>set a. c \<noteq> CHR '',''"
  shows "strtok (a @ CHR '','' # b) '','' = Some (a, b)"
proof -
  from assms obtain x xs where a: "a = x # xs" by (cases a) auto
  with assms have x: "x \<noteq> CHR '',''" by simp
  have tw: "takeWhile (\<lambda>c. c \<notin> set '','') (a @ CHR '','' # b) = a"
    using assms(2) by simp
  have dw: "dropWhile (\<lambda>c. c \<notin> set '','') (a @ CHR '','' # b) = CHR '','' # b"
    using assms(2) by simp
  have "dropWhile (\<lambda>c. c \<in> set '','') (a @ CHR '','' # b) = a @ CHR '','' # b"
    using a x by simp
  with tw dw a show ?thesis by (simp add: strtok_def)
qed

lemma strtok_last:
  assumes "a \<noteq> []" "\<forall>c\<in>set a. c \<noteq> CHR '',''"
  shows "strtok a '','' = Some (a, [])"
proof -
  from assms obtain x xs where a: "a = x # xs" by (cases a) auto
  with assms have x: "x \<noteq> CHR '',''" by simp
  have tw: "takeWhile (\<lambda>c. c \<notin> set '','') a = a"
    using assms(2) by simp
  have dw: "dropWhile (\<lambda>c. c \<notin> set '','') a = []"
    using assms(2) by simp
  have "dropWhile (\<lambda>c. c \<in> set '','') a = a"
    using a x by simp
  with tw dw a show ?thesis by (simp add: strtok_def)
qed

text \<open>
  C6, as amended. Only the first two fields that are not empty are consulted: when the
  payload starts with two such fields, whatever follows the second delimiter changes nothing.
  \<open>0.1,200,999\<close> yields loudness 0.1 and pitch 200. An empty field is skipped, not
  read as zero: \<open>0.1,,300\<close> yields pitch 300.
\<close>

theorem later_tokens_ignored:
  "(t1 \<noteq> [] \<and> t2 \<noteq> [] \<and> (\<forall>c\<in>set (t1 @ t2). c \<noteq> CHR '','' \<and> c \<noteq> CHR 0x00) \<longrightarrow>
      parse_payload (t1 @ CHR '','' # t2 @ CHR '','' # rest)
        = (float_of_double (atof t1), atoi t2)
      \<and> parse_payload (t1 @ CHR '','' # t2) = (float_of_double (atof t1), atoi t2))
   \<and> parse_payload ''0.1,200,999'' = (f32_round (1 / 10), 200)
   \<and> parse_payload ''0.1,,300'' = (f32_round (1 / 10), 300)"
proof -
  have gen: "parse_payload (t1 @ CHR '','' # t2 @ CHR '','' # rest)
        = (float_of_double (atof t1), atoi t2)
      \<and> parse_payload (t1 @ CHR '','' # t2) = (float_of_double (atof t1), atoi t2)"
    if h: "t1 \<noteq> []" "t2 \<noteq> []" "\<forall>c\<in>set (t1 @ t2). c \<noteq> CHR '','' \<and> c \<noteq> CHR 0x00"
  proof -
    from h have n1: "\<forall>c\<in>set t1. c \<noteq> CHR 0x00" and n2: "\<forall>c\<in>set t2. c \<noteq> CHR 0x00"
      and k1: "\<forall>c\<in>set t1. c \<noteq> CHR '',''" and k2: "\<forall>c\<in>set t2. c \<noteq> CHR '',''"
      by auto
    have "c_str (t1 @ CHR '','' # t2 @ CHR '','' # rest) = t1 @ CHR '','' # t2 @ CHR '','' # c_str rest"
      using c_str_fields [OF n1, of "t2 @ CHR '','' # rest"] c_str_fields [OF n2, of rest] by simp
    then have a: "parse_payload (t1 @ CHR '','' # t2 @ CHR '','' # rest)
        = (float_of_double (atof t1), atoi t2)"
      using strtok_field [OF h(1) k1, of "t2 @ CHR '','' # c_str rest"]
        strtok_field [OF h(2) k2, of "c_str rest"]
      by (simp add: parse_payload_def)
    have "c_str t2 = t2"
      using n2 by (simp add: c_str_def)
    then have "c_str (t1 @ CHR '','' # t2) = t1 @ CHR '','' # t2"
      using c_str_fields [OF n1, of t2] by simp
    then have b: "parse_payload (t1 @ CHR '','' # t2) = (float_of_double (atof t1), atoi t2)"
      using strtok_field [OF h(1) k1, of t2] strtok_last [OF h(2) k2]
      by (simp add: parse_payload_def)
    from a b show ?thesis by simp
  qed
  have e1: "parse_payload ''0.1,200,999'' = (f32_round (1 / 10), 200)"
    by (simp add: scan_eval float_eval split del: if_split)
  have e2: "parse_payload ''0.1,,300'' = (f32_round (1 / 10), 300)"
    by (simp add: scan_eval float_eval split del: if_split)
  from gen e1 e2 show ?thesis by blast
qed

theorem later_tokens_ignored_witness:
  "parse_payload (''0.1'' @ CHR '','' # ''200'' @ CHR '','' # ''999'')
     = (float_of_double (atof ''0.1''), atoi ''200'')
   \<and> parse_payload (''0.1'' @ CHR '','' # ''200'') = (float_of_double (atof ''0.1''), atoi ''200'')"
  using later_tokens_ignored [of "''0.1''" "''200''" "''999''"]
  by simp

text \<open>
  C6 as stated fails: for \<open>0.1,,300\<close> the parser yields pitch 300, not 0.
\<close>

theorem empty_second_field_counterexample:
  "parse_payload ''0.1,,300'' = (0x3DCCCCCD, 300) \<and> snd (parse_payload ''0.1,,300'') \<noteq> 0"
proof -
  have "parse_payload ''0.1,,300'' = (0x3DCCCCCD, 300)"
    by (simp add: scan_eval float_eval split del: if_split)
  then show ?thesis by simp
qed

text \<open>
  C3. The payload \<open>0.1,200\<close> parses to loudness 0.1 and pitch 200, and the payload
  \<open>0.3\<close> without a second field to loudness 0.3 and pitch 0. The loudness is a
  \<open>float\<close>: it is the single precision value nearest to the decimal number.
\<close>

theorem parse_well_formed:
  "parse_payload ''0.1,200'' = (f32_round (1 / 10), 200)
   \<and> parse_payload ''0.3'' = (f32_round (3 / 10), 0)
   \<and> f32_round (1 / 10) = 0x3DCCCCCD \<and> f32_round (3 / 10) = 0x3E99999A"
proof -
  have "parse_payload ''0.1,200'' = (f32_round (1 / 10), 200)"
    by (simp add: scan_eval float_eval split del: if_split)
  moreover have "parse_payload ''0.3'' = (f32_round (3 / 10), 0)"
    by (simp add: scan_eval float_eval split del: if_split)
  moreover have "f32_round (1 / 10) = 0x3DCCCCCD"
    by (simp add: float_eval split del: if_split)
  moreover have "f32_round (3 / 10) = 0x3E99999A"
    by (simp add: float_eval split del: if_split)
  ultimately show ?thesis by simp
qed

lemma render_audio_no_perror: "Perror s \<notin> set (render_audio l p [])"
  by (auto simp: render_audio_def render_rms_bar_def render_pitch_bar_def clear_terminal_def
      printf_def putchar_times_append Let_def)

text \<open>
  C4. The parser never fails: every payload yields a loudness and a pitch, the loop renders
  them and goes on to the next \<open>recvfrom\<close>, and the rendering reports no error. The
  payload \<open>abc,xyz\<close> yields loudness 0.0 and pitch 0.
\<close>

theorem parse_never_fails:
  "(\<exists>l p. parse_payload payload = (l, p))
   \<and> (0 < n \<longrightarrow>
        receive_loop fd ((n, buf) # later) t
          = receive_loop fd later
              ((t @ [Recvfrom_call fd])
                @ render_audio (fst (parse_payload (take (nat n) buf)))
                    (snd (parse_payload (take (nat n) buf))) []))
   \<and> (\<forall>s. Perror s \<notin> set (render_audio l p []))
   \<and> parse_payload ''abc,xyz'' = (0, 0)"
proof -
  have a: "\<exists>l p. parse_payload payload = (l, p)"
    by (cases "parse_payload payload") simp
  have b: "receive_loop fd ((n, buf) # later) t
          = receive_loop fd later
              ((t @ [Recvfrom_call fd])
                @ render_audio (fst (parse_payload (take (nat n) buf)))
                    (snd (parse_payload (take (nat n) buf))) [])" if "0 < n"
  proof -
    obtain l p where lp: "parse_payload (take (nat n) buf) = (l, p)"
      by (cases "parse_payload (take (nat n) buf)") simp
    with that render_audio_append [of l p "t @ [Recvfrom_call fd]"] show ?thesis
      by (simp add: Let_def)
  qed
  have c: "parse_payload ''abc,xyz'' = (0, 0)"
    by (simp add: scan_eval float_eval split del: if_split)
  from a b c render_audio_no_perror show ?thesis by blast
qed

theorem parse_never_fails_witness:
  "receive_loop 3 [(7, ''abc,xyz'')] []
     = receive_loop 3 [] ([Recvfrom_call 3] @ render_audio 0 0 [])"
proof -
  have "parse_payload (take (nat 7) ''abc,xyz'') = (0, 0)"
    by (simp add: scan_eval float_eval split del: if_split)
  with parse_never_fails [of "''abc,xyz''" 7 3 "''abc,xyz''" "[]" "[]"]
    render_audio_append [of 0 0 "[Recvfrom_call 3]"]
  show ?thesis by simp
qed















section \<open>Rounding to single precision\<close>

lemma ilog2_bounds: "1 \<le> n \<Longrightarrow> 2 ^ ilog2 n \<le> n \<and> n < 2 ^ (ilog2 n + 1)"
proof (induction n rule: ilog2.induct)
  case (1 n)
  show ?case
  proof (cases "n < 2")
    case True
    with "1.prems" have "n = 1" by simp
    then show ?thesis by (simp add: ilog2.simps)
  next
    case False
    then have "1 \<le> n div 2" by simp
    with "1.IH" False have ih: "2 ^ ilog2 (n div 2) \<le> n div 2"
      "n div 2 < 2 ^ (ilog2 (n div 2) + 1)" by simp_all
    from False have eq: "ilog2 n = 1 + ilog2 (n div 2)"
      by (subst ilog2.simps) simp
    have "2 * (n div 2) \<le> n" by simp
    with ih(1) have lo: "2 * 2 ^ ilog2 (n div 2) \<le> n" by linarith
    have "n < 2 * (n div 2) + 2" by (simp add: div_less_iff_less_mult) 
    moreover from ih(2) have "n div 2 + 1 \<le> 2 ^ (ilog2 (n div 2) + 1)" by simp
    ultimately have hi: "n < 2 * 2 ^ (ilog2 (n div 2) + 1)" by linarith
    from lo hi eq show ?thesis by simp
  qed
qed

lemma rne_of_int: "rne (of_int n) = n"
  by (simp add: rne_def)

lemma rne_le: "x \<le> of_int n \<Longrightarrow> rne x \<le> n"
proof -
  assume h: "x \<le> of_int n"
  then have fl: "\<lfloor>x\<rfloor> \<le> n" by (simp add: floor_le_iff) 
  show ?thesis
  proof (cases "\<lfloor>x\<rfloor> = n")
    case True
    have "of_int \<lfloor>x\<rfloor> \<le> x" by simp
    with True h have "x = of_int n" by simp
    then show ?thesis by (simp add: rne_of_int)
  next
    case False
    with fl have "\<lfloor>x\<rfloor> + 1 \<le> n" by simp
    moreover have "rne x \<le> \<lfloor>x\<rfloor> + 1" by (simp add: rne_def Let_def)
    ultimately show ?thesis by simp
  qed
qed

lemma rne_ge: "of_int n \<le> x \<Longrightarrow> n \<le> rne x"
proof -
  assume "of_int n \<le> x"
  then have "n \<le> \<lfloor>x\<rfloor>" by (simp add: le_floor_iff)
  moreover have "\<lfloor>x\<rfloor> \<le> rne x" by (simp add: rne_def Let_def)
  ultimately show ?thesis by simp
qed

lemma rne_error: "\<bar>of_int (rne x) - x\<bar> \<le> 1 / 2"
proof -
  have "of_int \<lfloor>x\<rfloor> \<le> x" "x < of_int \<lfloor>x\<rfloor> + 1" by linarith+
  then show ?thesis
    by (auto simp: rne_def Let_def abs_le_iff)
qed

lemma exponent2_bounds:
  assumes "0 < x"
  shows "2 powi exponent2 x \<le> x \<and> x < 2 powi (exponent2 x + 1)"
proof (cases "1 \<le> x")
  case True
  then have n: "1 \<le> \<lfloor>x\<rfloor>" by simp
  from ilog2_bounds [OF n] have lo: "2 ^ ilog2 \<lfloor>x\<rfloor> \<le> \<lfloor>x\<rfloor>"
    and hi: "\<lfloor>x\<rfloor> + 1 \<le> 2 ^ (ilog2 \<lfloor>x\<rfloor> + 1)" by simp_all
  have "(2::rat) ^ ilog2 \<lfloor>x\<rfloor> = of_int (2 ^ ilog2 \<lfloor>x\<rfloor>)" by simp
  also have "\<dots> \<le> of_int \<lfloor>x\<rfloor>" using lo by (simp only: of_int_le_iff)
  also have "\<dots> \<le> x" by simp
  finally have a: "(2::rat) ^ ilog2 \<lfloor>x\<rfloor> \<le> x" .
  have "x < of_int (\<lfloor>x\<rfloor> + 1)" by linarith
  also have "\<dots> \<le> of_int (2 ^ (ilog2 \<lfloor>x\<rfloor> + 1))" using hi by (simp only: of_int_le_iff)
  also have "\<dots> = (2::rat) ^ (ilog2 \<lfloor>x\<rfloor> + 1)" by simp
  finally have b: "x < (2::rat) ^ (ilog2 \<lfloor>x\<rfloor> + 1)" .
  have e: "exponent2 x = int (ilog2 \<lfloor>x\<rfloor>)" using True by (simp add: exponent2_def)
  have "exponent2 x + 1 = int (ilog2 \<lfloor>x\<rfloor> + 1)" using e by simp
  then have "(2::rat) powi (exponent2 x + 1) = 2 ^ (ilog2 \<lfloor>x\<rfloor> + 1)"
    by (simp only: power_int_of_nat)
  moreover have "(2::rat) powi exponent2 x = 2 ^ ilog2 \<lfloor>x\<rfloor>"
    using e by (simp only: power_int_of_nat)
  ultimately show ?thesis using a b by simp
next
  case False
  define y where "y = 1 / x"
  define j where "j = ilog2 (\<lceil>y\<rceil> - 1)"
  from False assms have y1: "1 < y" by (simp add: y_def)
  then have "1 < \<lceil>y\<rceil>" by (simp add: less_ceiling_iff)
  then have n: "1 \<le> \<lceil>y\<rceil> - 1" by simp
  from ilog2_bounds [OF n] have lo: "2 ^ j \<le> \<lceil>y\<rceil> - 1"
    and hi: "\<lceil>y\<rceil> \<le> 2 ^ (j + 1)" by (simp_all add: j_def)
  have "y \<le> of_int \<lceil>y\<rceil>" by simp
  also have "\<dots> \<le> of_int (2 ^ (j + 1))" using hi by (simp only: of_int_le_iff)
  finally have yhi: "y \<le> 2 ^ (j + 1)" by simp
  have "(2::rat) ^ j = of_int (2 ^ j)" by simp
  also have "\<dots> \<le> of_int (\<lceil>y\<rceil> - 1)" using lo by (simp only: of_int_le_iff)
  also have "\<dots> < y" by linarith
  finally have ylo: "2 ^ j < y" .
  have e: "exponent2 x = - int (j + 1)"
    using False by (simp add: exponent2_def j_def y_def)
  have p1: "(2::rat) powi exponent2 x = 1 / 2 ^ (j + 1)"
    unfolding e by (simp only: power_int_minus_divide power_int_of_nat)
  have "exponent2 x + 1 = - int j" using e by simp
  then have p2: "(2::rat) powi (exponent2 x + 1) = 1 / 2 ^ j"
    by (simp only: power_int_minus_divide power_int_of_nat)
  from yhi assms have "1 / 2 ^ (j + 1) \<le> x"
    by (simp add: y_def field_simps)
  moreover from ylo assms have "x < 1 / 2 ^ j"
    by (simp add: y_def field_simps)
  ultimately show ?thesis using p1 p2 by simp
qed

lemma exponent2_le: "0 < x \<Longrightarrow> x < 2 powi (j + 1) \<Longrightarrow> exponent2 x \<le> j"
proof (rule ccontr)
  assume x: "0 < x" "x < 2 powi (j + 1)" and "\<not> exponent2 x \<le> j"
  then have "j + 1 \<le> exponent2 x" by simp
  then have "(2::rat) powi (j + 1) \<le> 2 powi exponent2 x"
    by (simp add: power_int_increasing)
  with exponent2_bounds [OF x(1)] x(2) show False by simp
qed

lemma div_mod_field:
  fixes q r :: int
  assumes "0 \<le> r" "r < 8388608"
  shows "(q * 8388608 + r) div 8388608 = q" "(q * 8388608 + r) mod 8388608 = r"
  using assms by (simp_all add: div_pos_pos_trivial mod_pos_pos_trivial)

lemma val_mag_decode:
  assumes "0 \<le> k" "0 \<le> m" "m \<le> 2 ^ 24" "k = 0 \<or> 2 ^ 23 \<le> m"
  shows "val_mag 23 8 (k * 2 ^ 23 + m) = of_int m * 2 powi (k - 149)"
proof -
  consider (sub) "m < 2 ^ 23" | (norm) "2 ^ 23 \<le> m" "m < 2 ^ 24" | (carry) "m = 2 ^ 24"
    using assms(3) by fastforce
  then show ?thesis
  proof cases
    case sub
    with assms(4) have k: "k = 0" by simp
    from sub assms(2) div_mod_field [of m 0] show ?thesis
      by (simp add: val_mag_def k bias_def)
  next
    case norm
    define r where "r = m - 8388608"
    from norm have r: "0 \<le> r" "r < 8388608" by (simp_all add: r_def)
    have a: "k * 2 ^ 23 + m = (k + 1) * 8388608 + r" by (simp add: r_def algebra_simps)
    from assms(1) have "k + 1 \<noteq> 0" by simp
    with div_mod_field [OF r, of "k + 1"] show ?thesis
      unfolding a by (simp add: val_mag_def bias_def r_def Let_def)
  next
    case carry
    have a: "k * 2 ^ 23 + m = (k + 2) * 8388608 + 0" by (simp add: carry algebra_simps)
    from assms(1) have k2: "k + 2 \<noteq> 0" by simp
    have p: "(2::rat) powi (k - 148) = 2 powi (k - 149) * 2"
      using power_int_add [of "2::rat" "k - 149" 1] by simp
    from k2 div_mod_field [of 0 "k + 2"] show ?thesis
      unfolding a by (simp add: val_mag_def bias_def Let_def carry p)
  qed
qed

lemma binade_eq:
  assumes "0 < x" "x < 2 powi 127"
  shows "binade 8 x = max 0 (exponent2 x + 126)" "exponent2 x \<le> 126"
proof -
  from exponent2_le [of x 126] assms show e: "exponent2 x \<le> 126" by simp
  then show "binade 8 x = max 0 (exponent2 x + 126)"
    by (simp add: binade_def bias_def)
qed

lemma binade_le:
  assumes "0 < x" "x < 2 powi (j + 1)" "0 \<le> j + 126" "j \<le> 126"
  shows "binade 8 x \<le> j + 126"
proof -
  from exponent2_le [OF assms(1,2)] have "exponent2 x \<le> j" .
  with assms(3,4) show ?thesis by (simp add: binade_def bias_def)
qed

lemma scaled_less:
  fixes x :: rat
  assumes "x < 2 powi a"
  shows "x * 2 powi b < 2 powi (a + b)"
proof -
  have "x * 2 powi b < 2 powi a * 2 powi b"
    using assms by (simp add: mult_strict_right_mono)
  then show ?thesis by (simp add: power_int_add)
qed

lemma scaled_ge:
  fixes x :: rat
  assumes "2 powi a \<le> x"
  shows "2 powi (a + b) \<le> x * 2 powi b"
proof -
  have "2 powi a * 2 powi b \<le> x * 2 powi b"
    using assms by (simp add: mult_right_mono)
  then show ?thesis by (simp add: power_int_add)
qed

lemma signif_bounds:
  assumes "0 < x" "x < 2 powi 127"
  shows "0 \<le> binade 8 x" "binade 8 x \<le> 252"
    "0 \<le> rne (x * 2 powi (149 - binade 8 x))"
    "rne (x * 2 powi (149 - binade 8 x)) \<le> 2 ^ 24"
    "binade 8 x = 0 \<or> 2 ^ 23 \<le> rne (x * 2 powi (149 - binade 8 x))"
proof -
  define e where "e = exponent2 x"
  define k where "k = binade 8 x"
  from binade_eq [OF assms] have k: "k = max 0 (e + 126)" and e: "e \<le> 126"
    by (simp_all add: k_def e_def)
  from exponent2_bounds [OF assms(1)] have lo: "2 powi e \<le> x" and hi: "x < 2 powi (e + 1)"
    by (simp_all add: e_def)
  from k e show "0 \<le> binade 8 x" "binade 8 x \<le> 252" by (simp_all add: k_def [symmetric])
  have "0 \<le> x * 2 powi (149 - k)" using assms(1) by simp
  then have "of_int 0 \<le> x * 2 powi (149 - k)" by simp
  from rne_ge [OF this] show "0 \<le> rne (x * 2 powi (149 - binade 8 x))"
    by (simp add: k_def)
  have up: "rne (x * 2 powi (149 - k)) \<le> 2 ^ 24"
  proof (cases "0 \<le> e + 126")
    case True
    with k have "k = e + 126" by simp
    with scaled_less [OF hi, of "149 - k"] have "x * 2 powi (149 - k) < 2 powi 24" by simp
    then have "x * 2 powi (149 - k) \<le> of_int (2 ^ 24)" by simp
    from rne_le [OF this] show ?thesis .
  next
    case False
    with k have k0: "k = 0" by simp
    from False have "e + 1 \<le> - 126" by simp
    then have "(2::rat) powi (e + 1) \<le> 2 powi (- 126)"
      by (simp only: power_int_increasing one_le_numeral)
    with hi have "x < 2 powi (- 126)" by simp
    from scaled_less [OF this, of 149] have "x * 2 powi (149 - k) < 2 powi 23"
      by (simp add: k0)
    then have "x * 2 powi (149 - k) \<le> of_int (2 ^ 24)" by simp
    from rne_le [OF this] show ?thesis .
  qed
  then show "rne (x * 2 powi (149 - binade 8 x)) \<le> 2 ^ 24" by (simp add: k_def)
  have "k = 0 \<or> 2 ^ 23 \<le> rne (x * 2 powi (149 - k))"
  proof (cases "0 < e + 126")
    case True
    with k have "k = e + 126" by simp
    with scaled_ge [OF lo, of "149 - k"] have "2 powi 23 \<le> x * 2 powi (149 - k)" by simp
    then have "of_int (2 ^ 23) \<le> x * 2 powi (149 - k)" by simp
    from rne_ge [OF this] show ?thesis by simp
  next
    case False
    with k show ?thesis by simp
  qed
  then show "binade 8 x = 0 \<or> 2 ^ 23 \<le> rne (x * 2 powi (149 - binade 8 x))"
    by (simp add: k_def)
qed

lemma round_mag_eq:
  assumes "0 < x" "x < 2 powi 127"
  shows "round_mag 23 8 x = binade 8 x * 2 ^ 23 + rne (x * 2 powi (149 - binade 8 x))"
    "0 \<le> round_mag 23 8 x" "round_mag 23 8 x < inf_pat 23 8"
proof -
  note b = signif_bounds [OF assms]
  have "binade 8 x * 2 ^ 23 \<le> 252 * 2 ^ 23" using b(2) by simp
  with b(4) have lt: "binade 8 x * 2 ^ 23 + rne (x * 2 powi (149 - binade 8 x)) < inf_pat 23 8"
    by (simp add: inf_pat_def)
  have "127 + 23 - binade 8 x - 1 = 149 - binade 8 x" by simp
  with lt assms(1) show eq: "round_mag 23 8 x = binade 8 x * 2 ^ 23 + rne (x * 2 powi (149 - binade 8 x))"
    by (simp add: round_mag_def Let_def bias_def)
  from lt eq show "round_mag 23 8 x < inf_pat 23 8" by simp
  from b(1,3) eq show "0 \<le> round_mag 23 8 x" by simp
qed

lemma round_mag_val:
  assumes "0 < x" "x < 2 powi 127"
  shows "val_mag 23 8 (round_mag 23 8 x)
    = of_int (rne (x * 2 powi (149 - binade 8 x))) * 2 powi (binade 8 x - 149)"
  using val_mag_decode [OF signif_bounds(1,3,4,5) [OF assms]] round_mag_eq(1) [OF assms]
  by simp

lemma powi_cancel: "(2::rat) powi (149 - k) * 2 powi (k - 149) = 1"
  using power_int_add [of "2::rat" "149 - k" "k - 149"] by simp

lemma round_error:
  assumes "0 < x" "x < 2 powi 127"
  shows "\<bar>val_mag 23 8 (round_mag 23 8 x) - x\<bar> \<le> 2 powi (binade 8 x - 149) / 2"
proof -
  define k where "k = binade 8 x"
  define y where "y = x * 2 powi (149 - k)"
  define u where "u = (2::rat) powi (k - 149)"
  have u: "0 < u" by (simp add: u_def)
  have "y * u = x * (2 powi (149 - k) * 2 powi (k - 149))" by (simp add: y_def u_def)
  then have x: "x = y * u" by (simp add: powi_cancel)
  have v: "val_mag 23 8 (round_mag 23 8 x) = of_int (rne y) * u"
    using round_mag_val [OF assms] by (simp add: y_def u_def k_def)
  have "of_int (rne y) * u - y * u = (of_int (rne y) - y) * u"
    by (simp add: left_diff_distrib)
  then have "\<bar>of_int (rne y) * u - y * u\<bar> = \<bar>of_int (rne y) - y\<bar> * u"
    using u by (simp add: abs_mult)
  also have "\<dots> \<le> 1 / 2 * u"
    using rne_error [of y] u by (intro mult_right_mono) simp_all
  finally have "\<bar>val_mag 23 8 (round_mag 23 8 x) - x\<bar> \<le> 1 / 2 * u"
    using v x [symmetric] by simp
  then show ?thesis by (simp add: u_def k_def)
qed

lemma round_le_int:
  assumes "0 < x" "x \<le> of_int N" "N < 2 ^ 24"
  shows "val_mag 23 8 (round_mag 23 8 x) \<le> of_int N"
proof -
  define k where "k = binade 8 x"
  define u where "u = (2::rat) powi (k - 149)"
  have u: "0 < u" by (simp add: u_def)
  have "(of_int N :: rat) < of_int (2 ^ 24)" using assms(3) by (simp only: of_int_less_iff)
  with assms(2) have x24: "x < 2 powi 24" by simp
  also have "\<dots> \<le> 2 powi 127" by simp
  finally have x127: "x < 2 powi 127" .
  from binade_le [OF assms(1), of 23] x24 have k149: "k \<le> 149" by (simp add: k_def)
  then have p: "(2::rat) powi (149 - k) = of_int (2 ^ nat (149 - k))"
    by (simp add: power_int_def)
  have "x * 2 powi (149 - k) \<le> of_int N * 2 powi (149 - k)"
    using assms(2) by (simp add: mult_right_mono)
  also have "\<dots> = of_int (N * 2 ^ nat (149 - k))" by (simp add: p)
  finally have "rne (x * 2 powi (149 - k)) \<le> N * 2 ^ nat (149 - k)" by (rule rne_le)
  then have "(of_int (rne (x * 2 powi (149 - k))) :: rat) \<le> of_int (N * 2 ^ nat (149 - k))"
    by (simp only: of_int_le_iff)
  then have "of_int (rne (x * 2 powi (149 - k))) * u \<le> of_int (N * 2 ^ nat (149 - k)) * u"
    using u by (intro mult_right_mono) simp_all
  also have "\<dots> = of_int N * (2 powi (149 - k) * 2 powi (k - 149))"
    by (simp add: p u_def)
  also have "\<dots> = of_int N" by (simp add: powi_cancel)
  finally show ?thesis
    using round_mag_val [OF assms(1) x127] by (simp add: k_def u_def)
qed

lemma round_ge_int:
  assumes "of_int N \<le> x" "0 < N" "N \<le> 2 ^ 24" "x < 2 powi 127"
  shows "of_int N \<le> val_mag 23 8 (round_mag 23 8 x)"
proof -
  define k where "k = binade 8 x"
  define m where "m = rne (x * 2 powi (149 - k))"
  define u where "u = (2::rat) powi (k - 149)"
  have u: "0 < u" by (simp add: u_def)
  from assms(1,2) have x0: "0 < x" by (simp add: less_le_trans [of 0 "of_int N"])
  have v: "val_mag 23 8 (round_mag 23 8 x) = of_int m * u"
    using round_mag_val [OF x0 assms(4)] by (simp add: k_def m_def u_def)
  show ?thesis
  proof (cases "k \<le> 149")
    case True
    then have p: "(2::rat) powi (149 - k) = of_int (2 ^ nat (149 - k))"
      by (simp add: power_int_def)
    have "(of_int (N * 2 ^ nat (149 - k)) :: rat) = of_int N * 2 powi (149 - k)" by (simp add: p)
    also have "\<dots> \<le> x * 2 powi (149 - k)"
      using assms(1) by (simp add: mult_right_mono)
    finally have "N * 2 ^ nat (149 - k) \<le> m" unfolding m_def by (rule rne_ge)
    then have "(of_int (N * 2 ^ nat (149 - k)) :: rat) \<le> of_int m"
      by (simp only: of_int_le_iff)
    then have le: "of_int (N * 2 ^ nat (149 - k)) * u \<le> of_int m * u"
      using u by (intro mult_right_mono) simp_all
    have "of_int (N * 2 ^ nat (149 - k)) * u = of_int N * (2 powi (149 - k) * 2 powi (k - 149))"
      by (simp add: p u_def)
    also have "\<dots> = of_int N" by (simp add: powi_cancel)
    finally have "of_int (N * 2 ^ nat (149 - k)) * u = (of_int N :: rat)" .
    with le have "of_int N \<le> of_int m * u" by (simp only:)
    with v show ?thesis by simp
  next
    case False
    then have k: "150 \<le> k" by simp
    with signif_bounds(5) [OF x0 assms(4)] have "2 ^ 23 \<le> m" by (simp add: k_def m_def)
    then have m: "(of_int (2 ^ 23) :: rat) \<le> of_int m" by (simp only: of_int_le_iff)
    from k have "1 \<le> k - 149" by simp
    then have "(2::rat) powi 1 \<le> 2 powi (k - 149)"
      by (simp only: power_int_increasing one_le_numeral)
    then have "2 \<le> u" by (simp add: u_def)
    with m have "of_int (2 ^ 23) * 2 \<le> of_int m * u"
      by (intro mult_mono) simp_all
    moreover have "(of_int N :: rat) \<le> of_int (2 ^ 24)" using assms(3) by (simp only: of_int_le_iff)
    ultimately show ?thesis using v by simp
  qed
qed

lemma round_int_exact:
  assumes "0 < N" "N < 2 ^ 24"
  shows "val_mag 23 8 (round_mag 23 8 (of_int N)) = of_int N"
proof -
  have x0: "(0::rat) < of_int N" using assms(1) by simp
  have "(of_int N :: rat) < of_int (2 ^ 24)" using assms(2) by (simp only: of_int_less_iff)
  also have "\<dots> \<le> 2 powi 127" by simp
  finally have x127: "(of_int N :: rat) < 2 powi 127" .
  from round_le_int [OF x0 _ assms(2)] have "val_mag 23 8 (round_mag 23 8 (of_int N)) \<le> of_int N"
    by simp
  moreover from round_ge_int [OF _ assms(1) _ x127] assms(2)
  have "of_int N \<le> val_mag 23 8 (round_mag 23 8 (of_int N))" by simp
  ultimately show ?thesis by simp
qed

lemma sint_small: "0 \<le> i \<Longrightarrow> i < 2 ^ 31 \<Longrightarrow> sint (word_of_int i :: 32 word) = i"
  by (simp add: sint_sbintrunc' signed_take_bit_int_eq_self)

lemma uint_small: "0 \<le> n \<Longrightarrow> n < 2 ^ 32 \<Longrightarrow> uint (word_of_int n :: 32 word) = n"
  by (simp only: uint_word_of_int) (simp add: mod_pos_pos_trivial)

lemma f32_make_fields:
  assumes "0 \<le> m" "m < 2 ^ 31"
  shows "f32_mag (f32_make s m) = m" "f32_neg (f32_make s m) = s"
proof -
  have u: "uint (f32_make s m) = (if s then 2 ^ 31 else 0) + m"
    unfolding f32_make_def using assms by (intro uint_small) simp_all
  show "f32_mag (f32_make s m) = m"
    unfolding f32_mag_def u using assms by (simp add: mod_pos_pos_trivial)
  show "f32_neg (f32_make s m) = s"
    unfolding f32_neg_def u using assms by simp
qed

lemma f32_mag_range: "0 \<le> f32_mag v" "f32_mag v < 2 ^ 31"
  by (simp_all add: f32_mag_def)

lemma val_mag_nonneg: "0 \<le> a \<Longrightarrow> 0 \<le> val_mag 23 8 a"
  by (simp add: val_mag_def Let_def pos_imp_zdiv_nonneg_iff)

lemma val_mag_0: "val_mag 23 8 0 = 0"
  by (simp add: val_mag_def)

lemma round_mag_0: "round_mag 23 8 0 = 0"
  by (simp add: round_mag_def)

lemma round_mag_range:
  assumes "0 \<le> x"
  shows "0 \<le> round_mag 23 8 x" "round_mag 23 8 x \<le> inf_pat 23 8" "round_mag 23 8 x < 2 ^ 31"
proof -
  have i: "0 \<le> inf_pat 23 8" "inf_pat 23 8 < 2 ^ 31" by (simp_all add: inf_pat_def)
  have k: "0 \<le> binade 8 x" by (simp add: binade_def)
  have "of_int 0 \<le> x * 2 powi (bias 8 + int 23 - binade 8 x - 1)" using assms by simp
  from rne_ge [OF this] k have "0 \<le> binade 8 x * 2 ^ 23 + rne (x * 2 powi (bias 8 + int 23 - binade 8 x - 1))"
    by simp
  with i show "0 \<le> round_mag 23 8 x" by (simp add: round_mag_def Let_def)
  show le: "round_mag 23 8 x \<le> inf_pat 23 8" using i by (simp add: round_mag_def Let_def)
  with i show "round_mag 23 8 x < 2 ^ 31" by simp
qed

lemma f32_val_sign: "f32_neg v \<Longrightarrow> f32_val v \<le> 0" "\<not> f32_neg v \<Longrightarrow> 0 \<le> f32_val v"
  using val_mag_nonneg [OF f32_mag_range(1) [of v]] by (simp_all add: f32_val_def)

lemma f32_val_abs: "\<bar>f32_val v\<bar> = val_mag 23 8 (f32_mag v)"
  using val_mag_nonneg [OF f32_mag_range(1) [of v]] by (simp add: f32_val_def)

lemma f32_val_inf: "f32_is_inf v \<Longrightarrow> \<bar>f32_val v\<bar> = 2 ^ 128"
  unfolding f32_val_abs by (simp add: f32_is_inf_def val_mag_def inf_pat_def bias_def)

lemma f32_round_fields:
  assumes "0 \<le> x"
  shows "f32_mag (f32_make s (round_mag 23 8 x)) = round_mag 23 8 x"
    "f32_neg (f32_make s (round_mag 23 8 x)) = s"
    "\<not> f32_is_nan (f32_make s (round_mag 23 8 x))"
    "\<bar>f32_val (f32_make s (round_mag 23 8 x))\<bar> = val_mag 23 8 (round_mag 23 8 x)"
proof -
  note r = round_mag_range [OF assms]
  from f32_make_fields [OF r(1) r(3)] show m: "f32_mag (f32_make s (round_mag 23 8 x)) = round_mag 23 8 x"
    and "f32_neg (f32_make s (round_mag 23 8 x)) = s" by simp_all
  from m r(2) show "\<not> f32_is_nan (f32_make s (round_mag 23 8 x))" by (simp add: f32_is_nan_def)
  from m show "\<bar>f32_val (f32_make s (round_mag 23 8 x))\<bar> = val_mag 23 8 (round_mag 23 8 x)"
    by (simp add: f32_val_abs)
qed

lemma round_unit:
  assumes "0 \<le> x" "x \<le> of_int N" "0 \<le> N" "N < 2 ^ 24"
  shows "0 \<le> val_mag 23 8 (round_mag 23 8 x)" "val_mag 23 8 (round_mag 23 8 x) \<le> of_int N"
    "round_mag 23 8 x < inf_pat 23 8"
proof -
  show "0 \<le> val_mag 23 8 (round_mag 23 8 x)"
    using val_mag_nonneg round_mag_range(1) [OF assms(1)] by simp
  have "(of_int N :: rat) < of_int (2 ^ 24)" using assms(4) by (simp only: of_int_less_iff)
  also have "\<dots> \<le> 2 powi 127" by simp
  finally have x127: "x < 2 powi 127" using assms(2) by simp
  show "val_mag 23 8 (round_mag 23 8 x) \<le> of_int N"
  proof (cases "x = 0")
    case True
    with assms(3) show ?thesis by (simp add: round_mag_0 val_mag_0)
  next
    case False
    with assms(1) have "0 < x" by simp
    from round_le_int [OF this assms(2,4)] show ?thesis .
  qed
  show "round_mag 23 8 x < inf_pat 23 8"
  proof (cases "x = 0")
    case True
    then show ?thesis by (simp add: round_mag_0 inf_pat_def)
  next
    case False
    with assms(1) have "0 < x" by simp
    from round_mag_eq(3) [OF this x127] show ?thesis .
  qed
qed

section \<open>The loudness bar\<close>

lemma nearest_single_nonneg:
  assumes "0 \<le> x"
  shows "nearest_single x = val_mag 23 8 (round_mag 23 8 x)"
proof -
  from assms have "\<not> x < 0" by simp
  moreover have "\<not> f32_neg (f32_make False (round_mag 23 8 x))"
    using f32_round_fields(2) [OF assms, of False] by simp
  ultimately show ?thesis
    using assms f32_round_fields(1) [OF assms, of False]
    by (simp add: nearest_single_def f32_round_def f32_val_def)
qed

lemma max_rms: "MAX_RMS_FOR_BAR = 0x3ECCCCCD"
  by (simp add: MAX_RMS_FOR_BAR_def float_eval split del: if_split)

lemma max_rms_fields:
  "f32_mag MAX_RMS_FOR_BAR = 1053609165" "\<not> f32_neg MAX_RMS_FOR_BAR"
  "f32_val MAX_RMS_FOR_BAR = 13421773 / 33554432"
  "\<not> f32_is_nan MAX_RMS_FOR_BAR" "\<not> f32_is_inf MAX_RMS_FOR_BAR"
  unfolding max_rms by (simp_all add: float_eval split del: if_split)

lemma bar_width: "float_of_int BAR_WIDTH = 0x42200000"
  by (simp add: BAR_WIDTH_def float_eval split del: if_split)

lemma bar_width_fields:
  "f32_mag (float_of_int BAR_WIDTH) = 1109393408" "\<not> f32_neg (float_of_int BAR_WIDTH)"
  "f32_val (float_of_int BAR_WIDTH) = 40"
  "\<not> f32_is_nan (float_of_int BAR_WIDTH)" "\<not> f32_is_inf (float_of_int BAR_WIDTH)"
  unfolding bar_width by (simp_all add: float_eval split del: if_split)

lemma zero_fields:
  "f32_mag 0 = 0" "\<not> f32_neg 0" "f32_val 0 = 0" "\<not> f32_is_nan 0" "\<not> f32_is_inf 0"
  by (simp_all add: float_eval split del: if_split)

lemma f32_quiet_signaling:
  assumes "f32_is_signaling a"
  shows "f32_is_nan (f32_quiet a)" "\<not> f32_is_signaling (f32_quiet a)"
proof -
  define u where "u = uint a"
  have u: "0 \<le> u" "u < 4294967296" using uint_lt2p [of a] by (simp_all add: u_def)
  from assms have m: "2139095040 < u mod 2147483648" "u mod 2147483648 < 2143289344"
    by (simp_all add: f32_is_signaling_def f32_is_nan_def f32_mag_def inf_pat_def u_def)
  have "uint (a + 2 ^ 22) = (u + 4194304) mod 4294967296"
    by (simp add: uint_word_ariths u_def)
  moreover have "(u + 4194304) mod 4294967296 mod 2147483648 = u mod 2147483648 + 4194304"
  proof (cases "u < 2147483648")
    case True
    with u m show ?thesis by (simp add: mod_pos_pos_trivial)
  next
    case False
    define r where "r = u - 2147483648"
    from False u have r: "0 \<le> r" "r < 2147483648" by (simp_all add: r_def)
    have ur: "u = r + 2147483648" by (simp add: r_def)
    from r have um: "u mod 2147483648 = r" unfolding ur by (simp add: mod_pos_pos_trivial)
    with m have r': "r < 2143289344" by simp
    with r have "(u + 4194304) mod 4294967296 = r + 4194304 + 2147483648"
      unfolding ur by (simp add: mod_pos_pos_trivial)
    moreover have "(r + 4194304 + 2147483648) mod 2147483648 = (r + 4194304) mod 2147483648"
      by (rule mod_add_self2)
    moreover from r r' have "(r + 4194304) mod 2147483648 = r + 4194304"
      by (simp add: mod_pos_pos_trivial)
    ultimately show ?thesis using um by (simp only:)
  qed
  ultimately have "f32_mag (a + 2 ^ 22) = f32_mag a + 4194304"
    by (simp add: f32_mag_def u_def)
  with assms show "f32_is_nan (f32_quiet a)" "\<not> f32_is_signaling (f32_quiet a)"
    by (simp_all add: f32_quiet_def f32_is_signaling_def f32_is_nan_def inf_pat_def)
qed

lemma clamp_rms:
  fixes v :: f32
  defines "x \<equiv> fminf (fmaxf v 0) MAX_RMS_FOR_BAR"
  shows "\<not> f32_is_nan x" "\<not> f32_is_inf x"
    "f32_val x =
       (if f32_is_nan v then (if f32_is_signaling v then f32_val MAX_RMS_FOR_BAR else 0)
        else min (max (f32_val v) 0) (f32_val MAX_RMS_FOR_BAR))"
    "0 \<le> f32_val x" "f32_val x \<le> f32_val MAX_RMS_FOR_BAR"
    "f32_neg x \<longrightarrow> f32_val x = 0"
proof -
  note c = max_rms_fields and z = zero_fields
  have sc: "\<not> f32_is_signaling MAX_RMS_FOR_BAR" "\<not> f32_is_signaling 0"
    by (simp_all add: f32_is_signaling_def c z)
  have both: "(x = 0 \<or> x = MAX_RMS_FOR_BAR \<or> (x = v \<and> \<not> f32_is_nan v))
      \<and> f32_val x =
       (if f32_is_nan v then (if f32_is_signaling v then f32_val MAX_RMS_FOR_BAR else 0)
        else min (max (f32_val v) 0) (f32_val MAX_RMS_FOR_BAR))"
  proof (cases "f32_is_nan v")
    case False
    then show ?thesis by (auto simp: x_def fmaxf_def fminf_def c z)
  next
    case True
    show ?thesis
    proof (cases "f32_is_signaling v")
      case False
      with True have "fmaxf v 0 = 0" by (simp add: fmaxf_def z sc)
      then show ?thesis using True False by (simp add: x_def fminf_def c z)
    next
      case sig: True
      with True have "fmaxf v 0 = f32_quiet v" by (simp add: fmaxf_def f32_nan_sum_def)
      with f32_quiet_signaling [OF sig] have "x = MAX_RMS_FOR_BAR"
        by (simp add: x_def fminf_def c sc)
      with True sig show ?thesis by simp
    qed
  qed
  then have cases: "x = 0 \<or> x = MAX_RMS_FOR_BAR \<or> (x = v \<and> \<not> f32_is_nan v)" by simp
  from both show val: "f32_val x =
       (if f32_is_nan v then (if f32_is_signaling v then f32_val MAX_RMS_FOR_BAR else 0)
        else min (max (f32_val v) 0) (f32_val MAX_RMS_FOR_BAR))" by simp
  have vc0: "0 \<le> f32_val MAX_RMS_FOR_BAR" by (simp add: c)
  from val vc0 show lo: "0 \<le> f32_val x" by (auto simp: min_def max_def)
  from val vc0 show hi: "f32_val x \<le> f32_val MAX_RMS_FOR_BAR" by (auto simp: min_def max_def)
  from cases show "\<not> f32_is_nan x" by (auto simp: c z)
  show "\<not> f32_is_inf x"
  proof
    assume "f32_is_inf x"
    from f32_val_inf [OF this] lo hi show False by (simp add: c)
  qed
  from f32_val_sign(1) [of x] lo show "f32_neg x \<longrightarrow> f32_val x = 0" by auto
qed

lemma rms_bar_length_formula:
  fixes v :: f32
  defines "q \<equiv>
      (if f32_is_nan v then (if f32_is_signaling v then f32_val MAX_RMS_FOR_BAR else 0)
       else min (max (f32_val v) 0) (f32_val MAX_RMS_FOR_BAR))
      / f32_val MAX_RMS_FOR_BAR"
  shows "rms_bar_length v = word_of_int \<lfloor>nearest_single (nearest_single q * 40)\<rfloor>"
    "0 \<le> nearest_single (nearest_single q * 40)" "nearest_single (nearest_single q * 40) \<le> 40"
proof -
  define x where "x = fminf (fmaxf v 0) MAX_RMS_FOR_BAR"
  note c = max_rms_fields and w = bar_width_fields
  note cl = clamp_rms [of v, folded x_def]
  have q: "q = f32_val x / f32_val MAX_RMS_FOR_BAR" by (simp add: q_def cl(3))
  from cl(4,5) have q0: "0 \<le> q" and q1: "q \<le> of_int 1" by (simp_all add: q c)
  define s1 where "s1 = val_mag 23 8 (round_mag 23 8 q)"
  note u1 = round_unit [OF q0 q1, folded s1_def]
  have ns1: "nearest_single q = s1" using nearest_single_nonneg [OF q0] by (simp add: s1_def)
  define y where "y = f32_div x MAX_RMS_FOR_BAR"
  have absq: "\<bar>f32_val x\<bar> / \<bar>f32_val MAX_RMS_FOR_BAR\<bar> = q"
    using cl(4) by (simp add: q c)
  have y: "y = f32_make (f32_neg x) (round_mag 23 8 q)"
    unfolding y_def f32_div_def using cl(1,2) c absq by (simp add: Let_def)
  note yf = f32_round_fields [OF q0, of "f32_neg x", folded y s1_def]
  from u1(3) yf(1) have yinf: "\<not> f32_is_inf y" by (simp add: f32_is_inf_def)
  have q2: "0 \<le> s1 * 40" "s1 * 40 \<le> of_int 40" using u1 by simp_all
  define s2 where "s2 = val_mag 23 8 (round_mag 23 8 (s1 * 40))"
  note u2 = round_unit [OF q2, folded s2_def]
  have ns2: "nearest_single (s1 * 40) = s2"
    using nearest_single_nonneg [OF q2(1)] by (simp add: s2_def)
  define z where "z = f32_mul y (float_of_int BAR_WIDTH)"
  have z: "z = f32_make (f32_neg y) (round_mag 23 8 (s1 * 40))"
    unfolding z_def f32_mul_def using yf(3,4) yinf w by (simp add: Let_def)
  note zf = f32_round_fields [OF q2(1), of "f32_neg y", folded z s2_def]
  have zval: "f32_val z = s2"
  proof (cases "f32_neg x")
    case True
    with cl(6) have "q = 0" by (simp add: q)
    then have "s1 = 0" by (simp add: s1_def round_mag_0 val_mag_0)
    then have "s2 = 0" by (simp add: s2_def round_mag_0 val_mag_0)
    with zf(4) show ?thesis by simp
  next
    case False
    with yf(2) zf(2) have "\<not> f32_neg z" by simp
    from f32_val_sign(2) [OF this] zf(4) show ?thesis by simp
  qed
  from u2 have fl: "0 \<le> \<lfloor>s2\<rfloor>" "\<lfloor>s2\<rfloor> \<le> 40" by (simp_all add: floor_le_iff)
  have "int_of_float z = word_of_int \<lfloor>s2\<rfloor>"
    using zf(3) zval u2(1) fl by (simp add: int_of_float_def Let_def)
  then show "rms_bar_length v = word_of_int \<lfloor>nearest_single (nearest_single q * 40)\<rfloor>"
    by (simp add: rms_bar_length_def Let_def x_def [symmetric] y_def [symmetric] z_def [symmetric]
        ns1 ns2)
  from u2 show "0 \<le> nearest_single (nearest_single q * 40)"
    "nearest_single (nearest_single q * 40) \<le> 40" by (simp_all add: ns1 ns2)
qed

lemma f32_fields_range:
  "0 \<le> f32_mag v div 2 ^ 23" "0 \<le> f32_mag v mod 2 ^ 23" "f32_mag v mod 2 ^ 23 < 2 ^ 23"
  using f32_mag_range(1) [of v] by (simp_all add: pos_imp_zdiv_nonneg_iff)

lemma single_gap:
  assumes "\<not> f32_is_nan v" "2 / 5 \<le> f32_val v"
  shows "f32_val MAX_RMS_FOR_BAR \<le> f32_val v"
proof -
  define E where "E = f32_mag v div 2 ^ 23"
  define T where "T = f32_mag v mod 2 ^ 23"
  have T: "0 \<le> T" "T < 8388608" and E: "0 \<le> E"
    using f32_fields_range [of v] by (simp_all add: T_def E_def)
  from assms(2) have "\<not> f32_val v \<le> 0" by simp
  with f32_val_sign(1) [of v] have "\<not> f32_neg v" by blast
  then have v: "f32_val v = val_mag 23 8 (f32_mag v)" by (simp add: f32_val_def)
  have vm: "val_mag 23 8 (f32_mag v)
      = (if E = 0 then of_int T * 2 powi (- 149) else of_int (8388608 + T) * 2 powi (E - 150))"
    by (simp add: val_mag_def Let_def E_def T_def bias_def)
  have Tr: "(of_int T :: rat) < 8388608" "(0::rat) \<le> of_int T"
    using T by simp_all
  consider (sub) "E = 0" | (low) "1 \<le> E" "E \<le> 124" | (mid) "E = 125" | (high) "126 \<le> E"
    using E by linarith
  then show ?thesis
  proof cases
    case sub
    have "of_int T * (2::rat) powi (- 149) \<le> 8388608 * 2 powi (- 149)"
      using Tr by (intro mult_right_mono) simp_all
    also have "\<dots> < 2 / 5" by (simp add: power_int_minus_divide)
    finally show ?thesis using assms(2) v vm sub by simp
  next
    case low
    then have "E - 150 \<le> - 26" by simp
    then have "(2::rat) powi (E - 150) \<le> 2 powi (- 26)"
      by (simp only: power_int_increasing one_le_numeral)
    moreover have "(of_int (8388608 + T) :: rat) \<le> 16777216" using Tr by simp
    ultimately have "of_int (8388608 + T) * (2::rat) powi (E - 150) \<le> 16777216 * 2 powi (- 26)"
      by (intro mult_mono) simp_all
    also have "\<dots> < 2 / 5" by (simp add: power_int_minus_divide)
    finally show ?thesis using assms(2) v vm low by simp
  next
    case mid
    then have val: "f32_val v = of_int (8388608 + T) / 33554432"
      using v vm by (simp add: power_int_minus_divide)
    with assms(2) have "(of_int 67108864 :: rat) \<le> of_int (5 * (8388608 + T))"
      by (simp add: field_simps)
    then have "67108864 \<le> 5 * (8388608 + T)" by (simp only: of_int_le_iff)
    then have "13421773 \<le> 8388608 + T" by simp
    then have "(of_int 13421773 :: rat) \<le> of_int (8388608 + T)" by (simp only: of_int_le_iff)
    then show ?thesis by (simp add: val max_rms_fields divide_right_mono)
  next
    case high
    then have "- 24 \<le> E - 150" by simp
    then have "(2::rat) powi (- 24) \<le> 2 powi (E - 150)"
      by (simp only: power_int_increasing one_le_numeral)
    moreover have "(8388608 :: rat) \<le> of_int (8388608 + T)" using Tr by simp
    ultimately have "8388608 * (2::rat) powi (- 24) \<le> of_int (8388608 + T) * 2 powi (E - 150)"
      by (intro mult_mono) simp_all
    moreover have "13421773 / 33554432 \<le> 8388608 * (2::rat) powi (- 24)"
      by (simp add: power_int_minus_divide)
    ultimately show ?thesis using v vm high by (simp add: max_rms_fields)
  qed
qed

lemma nearest_single_consts:
  "nearest_single 0 = 0" "nearest_single 1 = 1" "nearest_single 40 = 40"
  "nearest_single (1 / 2) = 1 / 2" "nearest_single 20 = 20"
  by (simp_all add: nearest_single_def float_eval split del: if_split)

lemma one_fifth: "f32_round (1 / 5) = 0x3E4CCCCD" "\<not> f32_is_nan 0x3E4CCCCD"
  "f32_val 0x3E4CCCCD / f32_val MAX_RMS_FOR_BAR = 1 / 2"
  "0 \<le> f32_val 0x3E4CCCCD" "f32_val 0x3E4CCCCD \<le> f32_val MAX_RMS_FOR_BAR"
  unfolding max_rms by (simp_all add: float_eval split del: if_split)

lemma bar_rest:
  assumes "0 \<le> i" "i \<le> 40"
  shows "sint (BAR_WIDTH - word_of_int i) = 40 - i" "sint (word_of_int i :: 32 word) = i"
proof -
  have "BAR_WIDTH - word_of_int i = (word_of_int (40 - i) :: 32 word)"
    by (simp add: BAR_WIDTH_def)
  then show "sint (BAR_WIDTH - word_of_int i) = 40 - i"
    using assms sint_small [of "40 - i"] by simp
  show "sint (word_of_int i :: 32 word) = i"
    using assms sint_small [of i] by simp
qed

lemma float_of_double_quiet: "\<not> f32_is_signaling (float_of_double d)"
proof (cases "f64_is_nan d")
  case True
  have "f32_mag (f32_make (f64_neg d) (inf_pat 23 8 + 2 ^ 22)) = inf_pat 23 8 + 2 ^ 22"
    by (rule f32_make_fields) (simp_all add: inf_pat_def)
  with True show ?thesis by (simp add: float_of_double_def f32_is_signaling_def)
next
  case False
  have "0 \<le> f64_mag d" by (simp add: f64_mag_def)
  then have "0 \<le> val_mag 52 11 (f64_mag d)"
    by (simp add: val_mag_def Let_def pos_imp_zdiv_nonneg_iff)
  from f32_round_fields(3) [OF this] False show ?thesis
    by (simp add: float_of_double_def f32_is_signaling_def)
qed

lemma parse_payload_quiet: "\<not> f32_is_signaling (fst (parse_payload payload))"
proof -
  have "\<not> f32_is_signaling 0" by (simp add: f32_is_signaling_def zero_fields)
  then show ?thesis
    by (auto simp: parse_payload_def Let_def float_of_double_quiet
        split: option.splits prod.splits)
qed

text \<open>
  C1, as amended. For every loudness value \<open>v\<close> the number \<open>L\<close> of filled columns
  is the truncation of \<open>(min (max v 0) c / c) * 40\<close> as single precision arithmetic
  computes it: \<open>c\<close> is the single precision value nearest to 0.4, the quotient and the
  product are each rounded to the nearest single precision value. A quiet NaN counts as
  0, and the parser yields no other NaN; a signalling NaN is made quiet by \<open>fmaxf\<close> and
  then counts as \<open>c\<close>.
  \<open>L\<close> lies between 0 and 40 and the bar is \<open>L\<close> filled characters followed by
  \<open>40 - L\<close> spaces, behind the label and before the newline. \<open>L = 0\<close> when
  \<open>v \<le> 0\<close>, \<open>L = 40\<close> when \<open>v \<ge> 0.4\<close>, and \<open>L = 20\<close> for the single
  precision 0.2.
\<close>

theorem loudness_bar:
  "(let L = sint (rms_bar_length v);
        c = f32_val MAX_RMS_FOR_BAR;
        clamped =
          (if f32_is_nan v then (if f32_is_signaling v then c else 0)
           else min (max (f32_val v) 0) c)
    in L = \<lfloor>nearest_single (nearest_single (clamped / c) * 40)\<rfloor>
       \<and> 0 \<le> L \<and> L \<le> 40
       \<and> stdout_of (render_rms_bar v [])
           = ''RMS  : '' @ replicate (nat L) CHR ''.'' @ replicate (nat (40 - L)) CHR '' ''
               @ [CHR 0x0A]
       \<and> ((f32_is_nan v \<and> \<not> f32_is_signaling v) \<or> (\<not> f32_is_nan v \<and> f32_val v \<le> 0)
            \<longrightarrow> L = 0)
       \<and> (f32_is_signaling v \<or> (\<not> f32_is_nan v \<and> 2 / 5 \<le> f32_val v) \<longrightarrow> L = 40))
   \<and> f32_val MAX_RMS_FOR_BAR = nearest_single (2 / 5)
   \<and> sint (rms_bar_length (f32_round (1 / 5))) = 20
   \<and> \<not> f32_is_signaling (fst (parse_payload payload))"
proof -
  define c where "c = f32_val MAX_RMS_FOR_BAR"
  define clamped where "clamped =
    (if f32_is_nan v then (if f32_is_signaling v then c else 0) else min (max (f32_val v) 0) c)"
  define s where "s = nearest_single (nearest_single (clamped / c) * 40)"
  note f = rms_bar_length_formula [of v, folded c_def, folded clamped_def, folded s_def]
  from f(2,3) have fl: "0 \<le> \<lfloor>s\<rfloor>" "\<lfloor>s\<rfloor> \<le> 40" by (simp_all add: floor_le_iff)
  have L: "sint (rms_bar_length v) = \<lfloor>s\<rfloor>"
    using bar_rest(2) [OF fl] by (simp add: f(1))
  have out: "stdout_of (render_rms_bar v [])
      = ''RMS  : '' @ replicate (nat \<lfloor>s\<rfloor>) CHR ''.'' @ replicate (nat (40 - \<lfloor>s\<rfloor>)) CHR '' ''
          @ [CHR 0x0A]"
    using bar_rest [OF fl]
    by (simp add: render_rms_bar_def Let_def printf_def putchar_times_append stdout_of_append
        stdout_of_replicate BAR_CHAR_def f(1))
  have c0: "0 < c" by (simp add: c_def max_rms_fields)
  have low: "\<lfloor>s\<rfloor> = 0"
    if "(f32_is_nan v \<and> \<not> f32_is_signaling v) \<or> (\<not> f32_is_nan v \<and> f32_val v \<le> 0)"
  proof -
    from that c0 have "clamped = 0" by (auto simp: clamped_def)
    then show ?thesis by (simp add: s_def nearest_single_consts)
  qed
  have high: "\<lfloor>s\<rfloor> = 40"
    if "f32_is_signaling v \<or> (\<not> f32_is_nan v \<and> 2 / 5 \<le> f32_val v)"
  proof -
    have "clamped = c"
    proof (cases "f32_is_signaling v")
      case True
      then show ?thesis by (simp add: clamped_def f32_is_signaling_def)
    next
      case False
      with that have h: "\<not> f32_is_nan v" "2 / 5 \<le> f32_val v" by simp_all
      with single_gap [of v] have "c \<le> f32_val v" by (simp add: c_def)
      with h c0 show ?thesis by (simp add: clamped_def)
    qed
    with c0 have "clamped / c = 1" by simp
    then show ?thesis by (simp add: s_def nearest_single_consts)
  qed
  have c04: "f32_val MAX_RMS_FOR_BAR = nearest_single (2 / 5)"
    by (simp add: MAX_RMS_FOR_BAR_def nearest_single_def)
  have mid: "sint (rms_bar_length (f32_round (1 / 5))) = 20"
  proof -
    have "min (max (f32_val 0x3E4CCCCD) 0) (f32_val MAX_RMS_FOR_BAR) = f32_val 0x3E4CCCCD"
      using one_fifth(4,5) by simp
    with rms_bar_length_formula(1) [of "0x3E4CCCCD"] one_fifth(2,3)
    have "rms_bar_length 0x3E4CCCCD = word_of_int 20"
      by (simp add: nearest_single_consts)
    then show ?thesis by (simp add: one_fifth(1))
  qed
  from L fl out low high c04 mid parse_payload_quiet [of payload] show ?thesis
    unfolding Let_def c_def [symmetric] clamped_def [symmetric] s_def [symmetric] by simp
qed

theorem loudness_bar_witness:
  "sint (rms_bar_length 0x3F000000) = 40 \<and> sint (rms_bar_length 0xBF800000) = 0
   \<and> sint (rms_bar_length 0x7FC00000) = 0 \<and> sint (rms_bar_length 0x7F800001) = 40"
proof -
  have a: "\<not> f32_is_nan 0x3F000000 \<and> 2 / 5 \<le> f32_val 0x3F000000"
    by (simp add: float_eval split del: if_split)
  have b: "\<not> f32_is_nan 0xBF800000 \<and> f32_val 0xBF800000 \<le> 0"
    by (simp add: float_eval split del: if_split)
  have c: "f32_is_nan 0x7FC00000 \<and> \<not> f32_is_signaling 0x7FC00000"
    by (simp add: float_eval split del: if_split)
  have d: "f32_is_signaling 0x7F800001"
    by (simp add: float_eval split del: if_split)
  have "sint (rms_bar_length 0x3F000000) = 40"
    using a loudness_bar [of "0x3F000000" "[]"] unfolding Let_def by blast
  moreover have "sint (rms_bar_length 0xBF800000) = 0"
    using b loudness_bar [of "0xBF800000" "[]"] unfolding Let_def by blast
  moreover have "sint (rms_bar_length 0x7FC00000) = 0"
    using c loudness_bar [of "0x7FC00000" "[]"] unfolding Let_def by blast
  moreover have "sint (rms_bar_length 0x7F800001) = 40"
    using d loudness_bar [of "0x7F800001" "[]"] unfolding Let_def by blast
  ultimately show ?thesis by simp
qed

lemma eleven_steps:
  "fmaxf 0x3DE147AE 0 = 0x3DE147AE"
  "fminf 0x3DE147AE 0x3ECCCCCD = 0x3DE147AE"
  "f32_div 0x3DE147AE 0x3ECCCCCD = 0x3E8CCCCD"
  "f32_mul 0x3E8CCCCD 0x42200000 = 0x41300000"
  "int_of_float 0x41300000 = 11"
  by (simp_all add: fmaxf_def fminf_def f32_div_def f32_mul_def float_eval split del: if_split)

lemma hundredth_steps:
  "fmaxf 0x3C23D70A 0 = 0x3C23D70A"
  "fminf 0x3C23D70A 0x3ECCCCCD = 0x3C23D70A"
  "f32_div 0x3C23D70A 0x3ECCCCCD = 0x3CCCCCCC"
  "f32_mul 0x3CCCCCCC 0x42200000 = 0x3F7FFFFF"
  "int_of_float 0x3F7FFFFF = 0"
  by (simp_all add: fmaxf_def fminf_def f32_div_def f32_mul_def float_eval split del: if_split)

text \<open>
  C1 as stated, with the quotient and the product taken exactly, fails. The payload
  \<open>0.11\<close> is received as the single precision value \<open>0x3DE147AE\<close>, a little
  below 0.11; the program renders 11 columns, the exact formula on that value gives 10.
  The payload \<open>0.01\<close> renders 0 columns, where the formula on the decimal 0.01 gives 1.
\<close>

theorem loudness_exact_formula_counterexample:
  "parse_payload ''0.11'' = (0x3DE147AE, 0)
   \<and> sint (rms_bar_length 0x3DE147AE) = 11
   \<and> \<lfloor>min (max (f32_val 0x3DE147AE) 0) (2 / 5) / (2 / 5) * 40\<rfloor> = 10
   \<and> sint (rms_bar_length 0x3DE147AE)
       \<noteq> \<lfloor>min (max (f32_val 0x3DE147AE) 0) (2 / 5) / (2 / 5) * 40\<rfloor>
   \<and> parse_payload ''0.01'' = (0x3C23D70A, 0)
   \<and> sint (rms_bar_length 0x3C23D70A) = 0
   \<and> \<lfloor>min (max (1 / 100 :: rat) 0) (2 / 5) / (2 / 5) * 40\<rfloor> = 1"
proof -
  have a: "parse_payload ''0.11'' = (0x3DE147AE, 0)"
    by (simp add: scan_eval float_eval split del: if_split)
  have b: "rms_bar_length 0x3DE147AE = 11"
    by (simp add: rms_bar_length_def max_rms bar_width eleven_steps)
  have c: "\<lfloor>min (max (f32_val 0x3DE147AE) 0) (2 / 5) / (2 / 5) * 40\<rfloor> = 10"
    by (simp add: float_eval split del: if_split)
  have d: "parse_payload ''0.01'' = (0x3C23D70A, 0)"
    by (simp add: scan_eval float_eval split del: if_split)
  have e: "rms_bar_length 0x3C23D70A = 0"
    by (simp add: rms_bar_length_def max_rms bar_width hundredth_steps)
  have f: "\<lfloor>min (max (1 / 100 :: rat) 0) (2 / 5) / (2 / 5) * 40\<rfloor> = 1"
    by simp
  from a b c d e f show ?thesis by simp
qed

section \<open>The pitch bar\<close>

lemma twentieths:
  "nearest_single (nearest_single (0) * 40) = 0"
  "nearest_single (nearest_single (1 / 20) * 40) = 2"
  "nearest_single (nearest_single (1 / 10) * 40) = 4"
  "nearest_single (nearest_single (3 / 20) * 40) = 6"
  "nearest_single (nearest_single (1 / 5) * 40) = 8"
  "nearest_single (nearest_single (1 / 4) * 40) = 10"
  "nearest_single (nearest_single (3 / 10) * 40) = 12"
  "nearest_single (nearest_single (7 / 20) * 40) = 14"
  "nearest_single (nearest_single (2 / 5) * 40) = 16"
  "nearest_single (nearest_single (9 / 20) * 40) = 18"
  "nearest_single (nearest_single (1 / 2) * 40) = 20"
  "nearest_single (nearest_single (11 / 20) * 40) = 22"
  "nearest_single (nearest_single (3 / 5) * 40) = 24"
  "nearest_single (nearest_single (13 / 20) * 40) = 26"
  "nearest_single (nearest_single (7 / 10) * 40) = 28"
  "nearest_single (nearest_single (3 / 4) * 40) = 30"
  "nearest_single (nearest_single (4 / 5) * 40) = 32"
  "nearest_single (nearest_single (17 / 20) * 40) = 34"
  "nearest_single (nearest_single (9 / 10) * 40) = 36"
  "nearest_single (nearest_single (19 / 20) * 40) = 38"
  "nearest_single (nearest_single (1) * 40) = 40"
  by (simp_all add: nearest_single_def float_eval split del: if_split)

lemma round_error_below:
  assumes "0 < x" "x < 2 powi (j + 1)" "0 \<le> j + 126" "j \<le> 126"
  shows "\<bar>nearest_single x - x\<bar> \<le> 2 powi (j - 24)"
proof -
  have "(2::rat) powi (j + 1) \<le> 2 powi 127"
    using assms(4) by (intro power_int_increasing) simp_all
  with assms(2) have x127: "x < 2 powi 127" by simp
  from binade_le [OF assms] have "binade 8 x - 149 \<le> j - 23" by simp
  then have "(2::rat) powi (binade 8 x - 149) \<le> 2 powi (j - 23)"
    by (simp only: power_int_increasing one_le_numeral)
  moreover have "(2::rat) powi (j - 23) = 2 powi (j - 24) * 2"
    using power_int_add [of "2::rat" "j - 24" 1] by simp
  ultimately have "(2::rat) powi (binade 8 x - 149) / 2 \<le> 2 powi (j - 24)" by simp
  with round_error [OF assms(1) x127] nearest_single_nonneg [of x] assms(1)
  show ?thesis by simp
qed

lemma pitch_columns_exact:
  assumes "0 \<le> K" "K \<le> 900"
  shows "\<lfloor>nearest_single (nearest_single (of_int K / 900) * 40)\<rfloor> = (K * 40) div 900"
proof (cases "(2 * K) mod 45 = 0")
  case True
  then have "K mod 45 = 0" by presburger
  then obtain j where K: "K = 45 * j" by auto
  with assms have "0 \<le> j" "j \<le> 20" by simp_all
  then have "j = 0 \<or> j = 1 \<or> j = 2 \<or> j = 3 \<or> j = 4 \<or> j = 5 \<or> j = 6 \<or> j = 7 \<or> j = 8
      \<or> j = 9 \<or> j = 10 \<or> j = 11 \<or> j = 12 \<or> j = 13 \<or> j = 14 \<or> j = 15 \<or> j = 16 \<or> j = 17
      \<or> j = 18 \<or> j = 19 \<or> j = 20" by arith
  then show ?thesis
    by (elim disjE) (simp_all add: K twentieths)
next
  case False
  define q :: rat where "q = of_int K / 900"
  define s1 where "s1 = nearest_single q"
  define s2 where "s2 = nearest_single (s1 * 40)"
  define n where "n = (2 * K) div 45"
  define r where "r = (2 * K) mod 45"
  from False have r: "1 \<le> r" "r \<le> 44" by (simp_all add: r_def)
  from False assms have K: "1 \<le> K" by (cases "K = 0") simp_all
  have q0: "0 < q" using K by (simp add: q_def)
  have q1: "q \<le> 1" using assms(2) by (simp add: q_def)
  have qlo: "1 / 900 \<le> q"
  proof -
    have "(of_int 1 :: rat) \<le> of_int K" using K by (simp only: of_int_le_iff)
    then show ?thesis by (simp add: q_def divide_right_mono)
  qed
  have "q < 2 powi (0 + 1)" using q1 by simp
  from round_error_below [OF q0 this] have e1: "\<bar>s1 - q\<bar> \<le> 1 / 16777216"
    by (simp add: s1_def power_int_minus_divide)
  from e1 qlo have s1pos: "0 < s1" by linarith
  from q0 q1 round_unit(2) [of q 1] have s1le: "s1 \<le> 1"
    by (simp add: s1_def nearest_single_nonneg)
  have x0: "0 < s1 * 40" using s1pos by simp
  have "s1 * 40 < 2 powi (5 + 1)" using s1le by simp
  from round_error_below [OF x0 this] have e2: "\<bar>s2 - s1 * 40\<bar> \<le> 1 / 524288"
    by (simp add: s2_def power_int_minus_divide)
  define t where "t = q * 40"
  from e1 e2 have near: "\<bar>s2 - t\<bar> \<le> 1 / 100"
    unfolding t_def by linarith
  have "2 * K = 45 * n + r" by (simp add: n_def r_def)
  then have "(of_int (2 * K) :: rat) = of_int (45 * n + r)" by (simp only:)
  then have t: "45 * t = 45 * of_int n + of_int r" by (simp add: t_def q_def)
  have rr: "(1::rat) \<le> of_int r" "(of_int r :: rat) \<le> 44"
    using r by simp_all
  from near t rr have "of_int n \<le> s2" "s2 < of_int n + 1"
    by linarith+
  then have "\<lfloor>s2\<rfloor> = n" by (simp add: floor_unique)
  moreover have "(K * 40) div 900 = n"
  proof -
    have "(2 * K * 20) div (45 * 20) = (2 * K) div 45"
      by (rule div_mult_mult2) simp
    then show ?thesis by (simp add: n_def)
  qed
  ultimately show ?thesis by (simp add: s2_def s1_def q_def)
qed

lemma pitch_min: "PITCH_MIN_HZ = 0x42C80000"
  by (simp add: PITCH_MIN_HZ_def float_eval split del: if_split)

lemma pitch_max: "PITCH_MAX_HZ = 0x447A0000"
  by (simp add: PITCH_MAX_HZ_def float_eval split del: if_split)

lemma pitch_min_fields:
  "f32_mag PITCH_MIN_HZ = 1120403456" "\<not> f32_neg PITCH_MIN_HZ" "f32_val PITCH_MIN_HZ = 100"
  "\<not> f32_is_nan PITCH_MIN_HZ" "\<not> f32_is_inf PITCH_MIN_HZ"
  unfolding pitch_min by (simp_all add: float_eval split del: if_split)

lemma pitch_max_fields:
  "f32_mag PITCH_MAX_HZ = 1148846080" "\<not> f32_neg PITCH_MAX_HZ" "f32_val PITCH_MAX_HZ = 1000"
  "\<not> f32_is_nan PITCH_MAX_HZ" "\<not> f32_is_inf PITCH_MAX_HZ"
  unfolding pitch_max by (simp_all add: float_eval split del: if_split)

lemma pitch_span: "f32_sub PITCH_MAX_HZ PITCH_MIN_HZ = 0x44610000"
  unfolding pitch_max pitch_min by (simp add: f32_sub_def float_eval split del: if_split)

lemma pitch_span_fields:
  "f32_mag (f32_sub PITCH_MAX_HZ PITCH_MIN_HZ) = 1147207680"
  "\<not> f32_neg (f32_sub PITCH_MAX_HZ PITCH_MIN_HZ)"
  "f32_val (f32_sub PITCH_MAX_HZ PITCH_MIN_HZ) = 900"
  "\<not> f32_is_nan (f32_sub PITCH_MAX_HZ PITCH_MIN_HZ)"
  "\<not> f32_is_inf (f32_sub PITCH_MAX_HZ PITCH_MIN_HZ)"
  unfolding pitch_span by (simp_all add: float_eval split del: if_split)

lemma float_of_int_pos:
  assumes "0 < sint p"
  shows "\<not> f32_is_nan (float_of_int p)" "\<not> f32_is_inf (float_of_int p)"
    "f32_val (float_of_int p) = val_mag 23 8 (round_mag 23 8 (of_int (sint p)))"
proof -
  define i where "i = sint p"
  define x :: rat where "x = of_int i"
  have i0: "0 < i" using assms by (simp add: i_def)
  then have x0: "0 < x" by (simp add: x_def)
  have "i < 2 ^ 31" using sint_lt [of p] by (simp add: i_def)
  then have "x < of_int (2 ^ 31)" unfolding x_def by (simp only: of_int_less_iff)
  also have "\<dots> \<le> 2 powi 127" by simp
  finally have x127: "x < 2 powi 127" .
  have "float_of_int p = f32_round x"
    unfolding float_of_int_def x_def i_def ..
  then have f: "float_of_int p = f32_make False (round_mag 23 8 x)"
    using x0 by (simp add: f32_round_def)
  from x0 have x0': "0 \<le> x" by simp
  note ff = f32_round_fields [OF x0', of False, folded f]
  from ff(3) show "\<not> f32_is_nan (float_of_int p)" .
  from round_mag_eq(3) [OF x0 x127] ff(1) show "\<not> f32_is_inf (float_of_int p)"
    by (simp add: f32_is_inf_def)
  from ff(2) f32_val_sign(2) [of "float_of_int p"] ff(4)
  have "f32_val (float_of_int p) = val_mag 23 8 (round_mag 23 8 x)" by simp
  then show "f32_val (float_of_int p) = val_mag 23 8 (round_mag 23 8 (of_int (sint p)))"
    unfolding x_def i_def .
qed

lemma float_of_int_clamped:
  assumes "0 < sint p"
  shows "min (max (f32_val (float_of_int p)) 100) 1000 = of_int (min (max (sint p) 100) 1000)"
proof -
  define i where "i = sint p"
  define vi where "vi = val_mag 23 8 (round_mag 23 8 (of_int i))"
  have v: "f32_val (float_of_int p) = vi"
    using float_of_int_pos(3) [OF assms] unfolding vi_def i_def .
  have i0: "0 < i" using assms by (simp add: i_def)
  then have x0: "(0::rat) < of_int i" by simp
  have "i < 2 ^ 31" using sint_lt [of p] by (simp add: i_def)
  then have "(of_int i :: rat) < of_int (2 ^ 31)" by (simp only: of_int_less_iff)
  also have "\<dots> \<le> 2 powi 127" by simp
  finally have x127: "(of_int i :: rat) < 2 powi 127" .
  consider (low) "i \<le> 100" | (mid) "100 < i" "i < 1000" | (high) "1000 \<le> i" by linarith
  then have "min (max vi 100) 1000 = of_int (min (max i 100) 1000)"
  proof cases
    case low
    then have "(of_int i :: rat) \<le> of_int 100" by (simp only: of_int_le_iff)
    from round_le_int [OF x0 this] have "vi \<le> 100" by (simp add: vi_def)
    with low show ?thesis by simp
  next
    case mid
    with i0 round_int_exact [of i] have "vi = of_int i" by (simp add: vi_def)
    with mid show ?thesis by simp
  next
    case high
    then have "(of_int 1000 :: rat) \<le> of_int i" by (simp only: of_int_le_iff)
    from round_ge_int [OF this _ _ x127] have "1000 \<le> vi" by (simp add: vi_def)
    with high show ?thesis by simp
  qed
  with v show ?thesis unfolding i_def by (simp only:)
qed

lemma clamp_pitch:
  assumes "0 < sint p"
  defines "b \<equiv> fminf (fmaxf (float_of_int p) PITCH_MIN_HZ) PITCH_MAX_HZ"
  shows "\<not> f32_is_nan b" "\<not> f32_is_inf b"
    "f32_val b = of_int (min (max (sint p) 100) 1000)"
proof -
  note lo = pitch_min_fields and hi = pitch_max_fields and fp = float_of_int_pos [OF assms(1)]
  have cases: "b = float_of_int p \<or> b = PITCH_MIN_HZ \<or> b = PITCH_MAX_HZ"
    using lo hi fp by (auto simp: b_def fmaxf_def fminf_def)
  then show "\<not> f32_is_nan b" "\<not> f32_is_inf b" using lo hi fp by auto
  have "f32_val b = min (max (f32_val (float_of_int p)) 100) 1000"
    using lo hi fp by (auto simp: b_def fmaxf_def fminf_def)
  with float_of_int_clamped [OF assms(1)] show "f32_val b = of_int (min (max (sint p) 100) 1000)"
    by simp
qed

lemma f32_mag_0_val: "f32_mag b = 0 \<Longrightarrow> f32_val b = 0"
  by (simp add: f32_val_def val_mag_0)

lemma pitch_bar_length_formula:
  assumes "0 < sint p"
  defines "K \<equiv> min (max (sint p) 100) 1000 - 100"
  shows "pitch_bar_length p = word_of_int ((K * 40) div 900)"
proof -
  define b where "b = fminf (fmaxf (float_of_int p) PITCH_MIN_HZ) PITCH_MAX_HZ"
  define kk :: rat where "kk = of_int K"
  note lo = pitch_min_fields and sp = pitch_span_fields and w = bar_width_fields
  note cl = clamp_pitch [OF assms(1), folded b_def]
  have K: "0 \<le> K" "K \<le> 900" by (simp_all add: K_def)
  then have kk: "0 \<le> kk" "kk \<le> of_int 900" unfolding kk_def by (simp_all only: of_int_le_iff of_int_0_le_iff)
  have diff: "f32_val b - f32_val PITCH_MIN_HZ = kk"
    unfolding cl(3) lo(3) kk_def K_def by (simp only: of_int_diff of_int_numeral)
  have bmag: "f32_mag b \<noteq> 0"
  proof
    assume "f32_mag b = 0"
    from f32_mag_0_val [OF this] cl(3) have "(of_int (min (max (sint p) 100) 1000) :: rat) = of_int 0"
      by (simp only: of_int_0)
    then have "min (max (sint p) 100) 1000 = 0" by (simp only: of_int_eq_iff)
    then show False by simp
  qed
  define d where "d = f32_sub b PITCH_MIN_HZ"
  have d: "d = f32_make False (round_mag 23 8 kk)"
  proof (cases "kk = 0")
    case True
    with diff bmag cl(1,2) lo show ?thesis
      by (simp add: d_def f32_sub_def Let_def round_mag_0)
  next
    case False
    with kk(1) have "\<not> kk < 0" "\<bar>kk\<bar> = kk" by simp_all
    with False diff cl(1,2) lo show ?thesis
      by (simp add: d_def f32_sub_def Let_def f32_round_def)
  qed
  note df = f32_round_fields [OF kk(1), of False, folded d]
  have "round_mag 23 8 kk < inf_pat 23 8"
    using round_unit(3) [OF kk] K by simp
  with df(1) have dinf: "\<not> f32_is_inf d" by (simp add: f32_is_inf_def)
  have dval: "\<bar>f32_val d\<bar> = kk"
  proof (cases "K = 0")
    case True
    then show ?thesis using df(4) by (simp add: kk_def round_mag_0 val_mag_0)
  next
    case False
    with K round_int_exact [of K] show ?thesis using df(4) by (simp add: kk_def)
  qed
  define q where "q = kk / 900"
  have q0: "0 \<le> q" and q1: "q \<le> of_int 1" using kk by (simp_all add: q_def)
  define s1 where "s1 = val_mag 23 8 (round_mag 23 8 q)"
  note u1 = round_unit [OF q0 q1, folded s1_def]
  have ns1: "nearest_single q = s1" using nearest_single_nonneg [OF q0] by (simp add: s1_def)
  define y where "y = f32_div d (f32_sub PITCH_MAX_HZ PITCH_MIN_HZ)"
  have y: "y = f32_make False (round_mag 23 8 q)"
    unfolding y_def f32_div_def using df(2,3) dinf dval sp by (simp add: Let_def q_def)
  note yf = f32_round_fields [OF q0, of False, folded y s1_def]
  from u1(3) yf(1) have yinf: "\<not> f32_is_inf y" by (simp add: f32_is_inf_def)
  have q2: "0 \<le> s1 * 40" "s1 * 40 \<le> of_int 40" using u1 by simp_all
  define s2 where "s2 = val_mag 23 8 (round_mag 23 8 (s1 * 40))"
  note u2 = round_unit [OF q2, folded s2_def]
  have ns2: "nearest_single (s1 * 40) = s2"
    using nearest_single_nonneg [OF q2(1)] by (simp add: s2_def)
  define z where "z = f32_mul y (float_of_int BAR_WIDTH)"
  have z: "z = f32_make False (round_mag 23 8 (s1 * 40))"
    unfolding z_def f32_mul_def using yf(2,3,4) yinf w by (simp add: Let_def)
  note zf = f32_round_fields [OF q2(1), of False, folded z s2_def]
  from zf(2) f32_val_sign(2) [of z] zf(4) have zval: "f32_val z = s2" by simp
  from u2 have fl: "0 \<le> \<lfloor>s2\<rfloor>" "\<lfloor>s2\<rfloor> \<le> 40" by (simp_all add: floor_le_iff)
  have "int_of_float z = word_of_int \<lfloor>s2\<rfloor>"
    using zf(3) zval u2(1) fl by (simp add: int_of_float_def Let_def)
  moreover have "\<lfloor>s2\<rfloor> = (K * 40) div 900"
    using pitch_columns_exact [OF K] by (simp add: ns1 [symmetric] ns2 [symmetric] q_def kk_def)
  moreover have "0 <s p" using assms(1) by (simp add: word_sless_alt)
  ultimately show ?thesis
    by (simp add: pitch_bar_length_def Let_def b_def [symmetric] d_def [symmetric]
        y_def [symmetric] z_def [symmetric])
qed

lemma pitch_bar_length_silent: "\<not> 0 < sint p \<Longrightarrow> pitch_bar_length p = 0"
proof -
  assume "\<not> 0 < sint p"
  then have "\<not> 0 <s p" by (simp add: word_sless_alt)
  moreover have "f32_mul 0 0x42200000 = 0" "int_of_float 0 = 0"
    by (simp_all add: f32_mul_def float_eval split del: if_split)
  ultimately show ?thesis by (simp add: pitch_bar_length_def bar_width)
qed

lemma show_nat_unsigned: "CHR ''-'' \<notin> set (show_nat n)"
proof (induction n rule: show_nat.induct)
  case (1 n)
  have digit: "''0123456789'' ! k \<noteq> CHR ''-''" if "k < 10" for k
  proof -
    from that have "''0123456789'' ! k \<in> set ''0123456789''" by (intro nth_mem) simp
    then show ?thesis by auto
  qed
  show ?case
  proof (cases "n < 10")
    case True
    with digit [of n] show ?thesis by (subst show_nat.simps) simp
  next
    case False
    with "1.IH" digit [of "n mod 10"] show ?thesis by (subst show_nat.simps) simp
  qed
qed

lemma floor_columns: "\<lfloor>(of_int K / 900 :: rat) * 40\<rfloor> = (K * 40) div 900"
proof -
  have "(of_int K / 900 :: rat) * 40 = of_int (K * 40) / of_int 900" by simp
  then show ?thesis by (simp only: floor_divide_of_int_eq)
qed

text \<open>
  C2. For every pitch value \<open>p\<close> (an \<open>int\<close>) the number \<open>P\<close> of filled columns
  is the truncation of \<open>((min (max p 100) 1000 - 100) / 900) * 40\<close> when \<open>p > 0\<close>
  and 0 otherwise: the single precision computation of the program agrees with the exact
  value for every \<open>p\<close>. The bar is \<open>P\<close> filled characters followed by \<open>40 - P\<close>
  spaces; the number printed behind it is \<open>p\<close> when \<open>p > 0\<close> and 0 otherwise, so it
  carries no minus sign. \<open>P = 40\<close> when \<open>p \<ge> 1000\<close> and \<open>P = 20\<close> for
  \<open>p = 550\<close>.
\<close>

theorem pitch_bar:
  "(let P = sint (pitch_bar_length p); i = sint p; hz = (if 0 < i then i else 0)
    in P = (if 0 < i then \<lfloor>(of_int (min (max i 100) 1000 - 100) / 900 :: rat) * 40\<rfloor> else 0)
       \<and> 0 \<le> P \<and> P \<le> 40
       \<and> stdout_of (render_pitch_bar p [])
           = ''Pitch: '' @ replicate (nat P) CHR ''.'' @ replicate (nat (40 - P)) CHR '' ''
               @ '' '' @ show_int hz @ '' Hz'' @ [CHR 0x0A]
       \<and> 0 \<le> hz \<and> CHR ''-'' \<notin> set (show_int hz)
       \<and> (1000 \<le> i \<longrightarrow> P = 40))
   \<and> sint (pitch_bar_length 550) = 20"
proof -
  define i where "i = sint p"
  define hz where "hz = (if 0 < i then i else 0)"
  define K where "K = min (max i 100) 1000 - 100"
  define n where "n = (if 0 < i then (K * 40) div 900 else 0)"
  have K: "0 \<le> K" "K \<le> 900" by (simp_all add: K_def)
  have "(K * 40) div 900 \<le> (900 * 40) div 900"
    using K by (intro zdiv_mono1) simp_all
  then have n: "0 \<le> n" "n \<le> 40"
    using K by (simp_all add: n_def pos_imp_zdiv_nonneg_iff)
  have len: "pitch_bar_length p = word_of_int n"
  proof (cases "0 < i")
    case True
    with pitch_bar_length_formula [of p] show ?thesis by (simp add: n_def K_def i_def)
  next
    case False
    with pitch_bar_length_silent [of p] show ?thesis by (simp add: n_def i_def)
  qed
  have P: "sint (pitch_bar_length p) = n" using bar_rest(2) [OF n] by (simp add: len)
  have formula: "n = (if 0 < i then \<lfloor>(of_int (min (max i 100) 1000 - 100) / 900 :: rat) * 40\<rfloor> else 0)"
    using floor_columns [of K] by (simp only: n_def K_def)
  have hzw: "sint (if 0 <s p then p else 0) = hz"
    by (simp add: hz_def i_def word_sless_alt)
  have out: "stdout_of (render_pitch_bar p [])
      = ''Pitch: '' @ replicate (nat n) CHR ''.'' @ replicate (nat (40 - n)) CHR '' ''
          @ '' '' @ show_int hz @ '' Hz'' @ [CHR 0x0A]"
    using bar_rest [OF n] hzw
    by (simp add: render_pitch_bar_def Let_def printf_def putchar_times_append stdout_of_append
        stdout_of_replicate BAR_CHAR_def len)
  have hz0: "0 \<le> hz" by (simp add: hz_def)
  then have sign: "CHR ''-'' \<notin> set (show_int hz)"
    using show_nat_unsigned [of "nat hz"] by (simp add: show_int_def)
  have high: "n = 40" if "1000 \<le> i"
    using that by (simp add: n_def K_def)
  have mid: "sint (pitch_bar_length 550) = 20"
  proof -
    have s: "sint (550 :: 32 word) = 550" by simp
    then have "0 < sint (550 :: 32 word)" by simp
    from pitch_bar_length_formula [OF this] s have "pitch_bar_length 550 = word_of_int 20"
      by simp
    then show ?thesis by simp
  qed
  from P formula n out hz0 sign high mid show ?thesis
    unfolding Let_def i_def [symmetric] hz_def [symmetric] by simp
qed

theorem pitch_bar_witness:
  "sint (pitch_bar_length 2000) = 40"
proof -
  have "1000 \<le> sint (2000 :: 32 word)" by simp
  with pitch_bar [of 2000] show ?thesis by (simp add: Let_def)
qed

end
